theory Spec2Isabelle
  imports Complex_Main "HOL-Library.AList" "HOL-Library.Multiset"
begin

section \<open>Values, tasks and the library functions the engine calls\<close>

text \<open>
  The engine of \<^verbatim>\<open>src/tasks/scoring.py\<close> works on loosely typed dictionaries. The fields it
  reads are \<^verbatim>\<open>id\<close>, \<^verbatim>\<open>due_date\<close>, \<^verbatim>\<open>importance\<close>, \<^verbatim>\<open>estimated_hours\<close> and
  \<^verbatim>\<open>dependencies\<close>; every other field is carried through unchanged.

  A Python float is modelled by the number it denotes: a finite float is a rational, and the
  three special values are constructors of their own. All scores the engine computes are
  sums of products of decimals with one and two places, so the exact result has at most three
  decimal places and \<^verbatim>\<open>round(x, 3)\<close> of the float result is the float nearest to that exact
  decimal; comparing two such scores as floats and as rationals gives the same answer.
\<close>

datatype pyfloat = Fin rat | PosInf | NegInf | NaN

datatype pyval =
    VNone
  | VBool bool
  | VInt int
  | VFloat pyfloat
  | VStr string
  | VDate int
  | VDateTime int rat
  | VOther

text \<open>
  Identifiers are dictionary keys. \<^verbatim>\<open>t.get("id")\<close> yields \<^verbatim>\<open>None\<close> for a task without the
  key, and \<^verbatim>\<open>None\<close> may also be stored explicitly or appear in a dependency list, so
  \<^verbatim>\<open>None\<close> is a key of its own; the other hashable values are the type parameter, compared
  with Python's \<^verbatim>\<open>==\<close>.
\<close>

datatype 'k pykey = PyNone | Key 'k

record 'k task =
  task_id :: "'k pykey option"
  title :: pyval
  due_date :: pyval
  importance :: pyval
  estimated_hours :: pyval
  dependencies :: "'k pykey list"

text \<open>
  \<open>task_id t = None\<close> is a dictionary without the key \<^verbatim>\<open>"id"\<close>. A missing or falsy
  \<^verbatim>\<open>dependencies\<close> entry is the empty list (\<^verbatim>\<open>t.get("dependencies") or []\<close>).

  The scored task is \<^verbatim>\<open>{**t, "score": ..., "explanation": ...}\<close>: the input fields and two
  more.
\<close>

record 'k scored_task =
  orig :: "'k task"
  score :: rat
  explanation :: string

datatype pyerr = OverflowError | KeyError | ValueError | TypeError

text \<open>
  What the engine takes from outside: the result of \<^verbatim>\<open>date.today()\<close> (as a day number; the
  code reads it once per task, the model takes one value for the whole call) and
  the string parsers of the standard library, \<^verbatim>\<open>datetime.strptime(s, "%Y-%m-%d").date()\<close>,
  \<^verbatim>\<open>float(s)\<close> and \<^verbatim>\<open>int(s)\<close>, each \<open>None\<close> where Python raises \<^verbatim>\<open>ValueError\<close>.
\<close>

record pylib =
  today :: int
  strptime_ymd :: "string \<Rightarrow> int option"
  float_of_str :: "string \<Rightarrow> pyfloat option"
  int_of_str :: "string \<Rightarrow> int option"

definition get_id :: "'k task \<Rightarrow> 'k pykey" where
  "get_id t = (case task_id t of None \<Rightarrow> PyNone | Some k \<Rightarrow> k)"

section \<open>Strategy weights\<close>

record weights =
  w_urgency :: rat
  w_importance :: rat
  w_effort :: rat
  w_deps :: rat

definition smart_balance :: weights where
  "smart_balance = \<lparr>w_urgency = 35/100, w_importance = 35/100, w_effort = 15/100, w_deps = 15/100\<rparr>"

definition STRATEGY_WEIGHTS :: "(string \<times> weights) list" where
  "STRATEGY_WEIGHTS =
    [(''fastest_wins'',
        \<lparr>w_urgency = 20/100, w_importance = 20/100, w_effort = 50/100, w_deps = 10/100\<rparr>),
     (''high_impact'',
        \<lparr>w_urgency = 20/100, w_importance = 60/100, w_effort = 10/100, w_deps = 10/100\<rparr>),
     (''deadline_driven'',
        \<lparr>w_urgency = 60/100, w_importance = 20/100, w_effort = 10/100, w_deps = 10/100\<rparr>),
     (''smart_balance'', smart_balance)]"

definition weights_for :: "string \<Rightarrow> weights" where
  "weights_for strategy =
     (case map_of STRATEGY_WEIGHTS strategy of Some w \<Rightarrow> w | None \<Rightarrow> smart_balance)"

section \<open>Signal normalizers\<close>

definition parse_due_date :: "pylib \<Rightarrow> pyval \<Rightarrow> int option" where
  "parse_due_date py v =
     (case v of
        VNone \<Rightarrow> None
      | VDate d \<Rightarrow> Some d
      | VDateTime d _ \<Rightarrow> Some d
      | VStr s \<Rightarrow> (if s = [] then None else strptime_ymd py s)
      | _ \<Rightarrow> None)"

definition compute_urgency_score :: "pylib \<Rightarrow> pyval \<Rightarrow> rat" where
  "compute_urgency_score py v =
     (case parse_due_date py v of
        None \<Rightarrow> 3/10
      | Some d \<Rightarrow>
          (let delta_days = d - today py in
           if delta_days < 0 then 1
           else if delta_days = 0 then 9/10
           else if delta_days \<le> 3 then 8/10
           else if delta_days \<le> 7 then 6/10
           else if delta_days \<le> 14 then 4/10
           else 2/10))"

text \<open>
  \<^verbatim>\<open>float(x)\<close>: \<open>Inr None\<close> stands for the \<^verbatim>\<open>TypeError\<close> and \<^verbatim>\<open>ValueError\<close> the caller
  catches. An integer is rounded to the nearest double, which keeps every comparison with
  0, 1, 3 and 6; from \<open>2 ^ 1024 - 2 ^ 970\<close> on there is no such double and Python raises
  \<^verbatim>\<open>OverflowError\<close>.
\<close>

definition py_float :: "pylib \<Rightarrow> pyval \<Rightarrow> pyerr + pyfloat option" where
  "py_float py v =
     (case v of
        VBool b \<Rightarrow> Inr (Some (Fin (if b then 1 else 0)))
      | VInt n \<Rightarrow> (if \<bar>n\<bar> < 2 ^ 1024 - 2 ^ 970 then Inr (Some (Fin (of_int n)))
                  else Inl OverflowError)
      | VFloat f \<Rightarrow> Inr (Some f)
      | VStr s \<Rightarrow> Inr (float_of_str py s)
      | _ \<Rightarrow> Inr None)"

text \<open>Comparison \<^verbatim>\<open>h <= c\<close> of a float with a finite constant; false for NaN.\<close>

fun float_le :: "pyfloat \<Rightarrow> rat \<Rightarrow> bool" where
  "float_le (Fin q) c = (q \<le> c)"
| "float_le NegInf c = True"
| "float_le PosInf c = False"
| "float_le NaN c = False"

definition compute_effort_score :: "pylib \<Rightarrow> pyval \<Rightarrow> pyerr + rat" where
  "compute_effort_score py v =
     (case py_float py v of
        Inl e \<Rightarrow> Inl e
      | Inr None \<Rightarrow> Inr (5/10)
      | Inr (Some h) \<Rightarrow>
          Inr (if float_le h 0 then 5/10
               else if float_le h 1 then 1
               else if float_le h 3 then 7/10
               else if float_le h 6 then 4/10
               else 2/10))"

text \<open>
  \<^verbatim>\<open>int(x)\<close>: a finite float is truncated towards zero, NaN raises \<^verbatim>\<open>ValueError\<close> (caught by
  the caller, \<open>Inr None\<close>), and an infinite float raises \<^verbatim>\<open>OverflowError\<close>, which the
  caller does not catch.
\<close>

definition trunc_rat :: "rat \<Rightarrow> int" where
  "trunc_rat q = (if 0 \<le> q then \<lfloor>q\<rfloor> else \<lceil>q\<rceil>)"

definition py_int :: "pylib \<Rightarrow> pyval \<Rightarrow> pyerr + int option" where
  "py_int py v =
     (case v of
        VBool b \<Rightarrow> Inr (Some (if b then 1 else 0))
      | VInt n \<Rightarrow> Inr (Some n)
      | VFloat (Fin q) \<Rightarrow> Inr (Some (trunc_rat q))
      | VFloat NaN \<Rightarrow> Inr None
      | VFloat _ \<Rightarrow> Inl OverflowError
      | VStr s \<Rightarrow> Inr (int_of_str py s)
      | _ \<Rightarrow> Inr None)"

definition normalize_importance :: "pylib \<Rightarrow> pyval \<Rightarrow> pyerr + rat" where
  "normalize_importance py v =
     (case py_int py v of
        Inl e \<Rightarrow> Inl e
      | Inr r \<Rightarrow>
          (let imp = (case r of None \<Rightarrow> 5 | Some n \<Rightarrow> n);
               imp = (if imp < 1 then 1 else imp);
               imp = (if imp > 10 then 10 else imp)
           in Inr (of_int imp / 10)))"

section \<open>Dependency bonus\<close>

text \<open>
  \<^verbatim>\<open>dependents_count\<close> is a \<^verbatim>\<open>defaultdict(int)\<close>: a total function with default 0. Every
  occurrence of an identifier in a dependency list adds one.
\<close>

definition count_deps :: "'k task list \<Rightarrow> 'k pykey \<Rightarrow> nat" where
  "count_deps tasks =
     fold (\<lambda>t c. fold (\<lambda>dep c. c(dep := c dep + 1)) (dependencies t) c) tasks (\<lambda>_. 0)"

definition bonus_level :: "nat \<Rightarrow> rat" where
  "bonus_level n = (if n = 0 then 0 else if n = 1 then 3/10 else if n \<le> 3 then 6/10 else 1)"

definition compute_dependency_bonus :: "'k task list \<Rightarrow> 'k pykey \<Rightarrow> rat option" where
  "compute_dependency_bonus tasks =
     (let dependents_count = count_deps tasks in
      fold (\<lambda>t bonus. bonus(get_id t \<mapsto> bonus_level (dependents_count (get_id t))))
        tasks Map.empty)"

section \<open>Cycle detection\<close>

text \<open>
  \<^verbatim>\<open>detect_cycles\<close> colours nodes in the dictionary \<^verbatim>\<open>visited\<close> (absent is white) and collects
  \<^verbatim>\<open>in_cycle\<close>. The nested function \<^verbatim>\<open>dfs\<close> mutates both and the list \<^verbatim>\<open>stack\<close>, which it
  restores before it returns; here the stack is an argument and the two others are the state
  passed along. \<open>dfs_deps\<close> is the \<^verbatim>\<open>for dep in graph.get(node, [])\<close> loop, its stack the one
  that already holds the current node. \<^verbatim>\<open>stack.index(dep)\<close> raises \<^verbatim>\<open>ValueError\<close> when the
  value is not in the list.

  The interpreter's recursion limit is not modelled: in Python the nested \<^verbatim>\<open>dfs\<close> uses one
  frame per node of a dependency chain and raises \<^verbatim>\<open>RecursionError\<close> on a chain of about
  a thousand tasks, where the functions below return. What is proved here about the cycle set
  and about the output is therefore about the runs of the program that return; no statement
  says that \<^verbatim>\<open>detect_cycles\<close> or \<^verbatim>\<open>score_tasks\<close> returns.
\<close>

datatype color = Gray | Black

record 'k dfs_state =
  visited :: "'k pykey \<Rightarrow> color option"
  in_cycle :: "'k pykey set"

fun index_of :: "'a list \<Rightarrow> 'a \<Rightarrow> nat option" where
  "index_of [] x = None"
| "index_of (y # ys) x = (if y = x then Some 0 else map_option Suc (index_of ys x))"

definition graph_get :: "('a \<times> 'a list) list \<Rightarrow> 'a \<Rightarrow> 'a list" where
  "graph_get g node = (case map_of g node of None \<Rightarrow> [] | Some ds \<Rightarrow> ds)"

function dfs :: "('k pykey \<times> 'k pykey list) list \<Rightarrow> 'k pykey \<Rightarrow> 'k pykey list \<Rightarrow> 'k dfs_state
                 \<Rightarrow> pyerr + 'k dfs_state"
  and dfs_deps :: "('k pykey \<times> 'k pykey list) list \<Rightarrow> 'k pykey list \<Rightarrow> 'k pykey list
                 \<Rightarrow> 'k dfs_state \<Rightarrow> pyerr + 'k dfs_state"
where
  "dfs g node stack st =
     (case dfs_deps g (graph_get g node) (stack @ [node])
             (st\<lparr>visited := (visited st)(node \<mapsto> Gray)\<rparr>) of
        Inl e \<Rightarrow> Inl e
      | Inr st' \<Rightarrow> Inr (st'\<lparr>visited := (visited st')(node \<mapsto> Black)\<rparr>))"
| "dfs_deps g [] stack st = Inr st"
| "dfs_deps g (dep # ds) stack st =
     (case visited st dep of
        None \<Rightarrow>
          (case dfs g dep stack st of
             Inl e \<Rightarrow> Inl e
           | Inr st' \<Rightarrow> dfs_deps g ds stack st')
      | Some Gray \<Rightarrow>
          (case index_of stack dep of
             None \<Rightarrow> Inl ValueError
           | Some idx \<Rightarrow>
               dfs_deps g ds stack (st\<lparr>in_cycle := in_cycle st \<union> set (drop idx stack)\<rparr>))
      | Some Black \<Rightarrow> dfs_deps g ds stack st)"
  by pat_completeness auto

definition nodes_of :: "('a \<times> 'a list) list \<Rightarrow> 'a set" where
  "nodes_of g = fst ` set g \<union> (\<Union>ds \<in> snd ` set g. set ds)"

lemma finite_nodes_of: "finite (nodes_of g)"
  by (simp add: nodes_of_def)

lemma graph_get_nodes: "set (graph_get g node) \<subseteq> nodes_of g"
proof
  fix x assume "x \<in> set (graph_get g node)"
  then obtain ds where "map_of g node = Some ds" "x \<in> set ds"
    by (cases "map_of g node") (auto simp: graph_get_def)
  then have "(node, ds) \<in> set g" by (auto dest: map_of_SomeD)
  with \<open>x \<in> set ds\<close> show "x \<in> nodes_of g"
    unfolding nodes_of_def by force
qed

lemma dfs_dom_mono:
  "dfs_dfs_deps_dom (Inl (g, node, stack, st)) \<Longrightarrow>
     dfs g node stack st = Inr st' \<Longrightarrow> dom (visited st) \<subseteq> dom (visited st')"
  "dfs_dfs_deps_dom (Inr (g, ds, stack, st)) \<Longrightarrow>
     dfs_deps g ds stack st = Inr st' \<Longrightarrow> dom (visited st) \<subseteq> dom (visited st')"
proof (induct g node stack st and g ds stack st arbitrary: st' and st' rule: dfs_dfs_deps.pinduct)
  case (1 g node stack st)
  from 1(1,3) obtain st1 where
    a: "dfs_deps g (graph_get g node) (stack @ [node]) (st\<lparr>visited := (visited st)(node \<mapsto> Gray)\<rparr>) = Inr st1"
    and b: "st' = st1\<lparr>visited := (visited st1)(node \<mapsto> Black)\<rparr>"
    by (auto simp: dfs.psimps split: sum.splits)
  from 1(2)[OF a] have "dom (visited st) \<subseteq> dom (visited st1)" by (auto simp: dom_def split: if_splits)
  with b show ?case by auto
next
  case (2 g stack st)
  then show ?case by (simp add: dfs_deps.psimps)
next
  case (3 g dep ds stack st)
  then show ?case
    by (fastforce simp: dfs_deps.psimps split: option.splits sum.splits color.splits)
qed

termination dfs
proof (relation "inv_image (less_than <*lex*> less_than <*lex*> less_than)
    (\<lambda>x. case x of
        Inl (g, node, stack, st) \<Rightarrow>
          (card (nodes_of g - (dom (visited st) \<union> {node})), 2::nat, 0::nat)
      | Inr (g, ds, stack, st) \<Rightarrow>
          (card ((nodes_of g \<union> set ds) - dom (visited st)), 1, length ds))", goal_cases)
  case 1
  show ?case by (intro wf_inv_image wf_lex_prod wf_less_than)
next
  case (2 g node stack st)
  have "nodes_of g \<union> set (graph_get g node) = nodes_of g"
    using graph_get_nodes[of g node] by auto
  then show ?case by (simp add: Un_commute)
next
  case (3 g dep ds stack st)
  have "nodes_of g - (dom (visited st) \<union> {dep})
          \<subset> (nodes_of g \<union> set (dep # ds)) - dom (visited st)"
    using 3 by (auto simp: dom_def)
  then have "card (nodes_of g - (dom (visited st) \<union> {dep}))
          < card ((nodes_of g \<union> set (dep # ds)) - dom (visited st))"
    by (intro psubset_card_mono) (simp_all add: finite_nodes_of)
  then show ?case by simp
next
  case (4 g dep ds stack st st')
  then have "dom (visited st) \<subseteq> dom (visited st')"
    using dfs_dom_mono(1) by blast
  then have "(nodes_of g \<union> set ds) - dom (visited st')
          \<subseteq> (nodes_of g \<union> set (dep # ds)) - dom (visited st)"
    by auto
  then have "card ((nodes_of g \<union> set ds) - dom (visited st'))
          \<le> card ((nodes_of g \<union> set (dep # ds)) - dom (visited st))"
    by (intro card_mono) (simp_all add: finite_nodes_of)
  then show ?case by auto
next
  case (5 g dep ds stack st x idx)
  have "card ((nodes_of g \<union> set ds) - dom (visited st))
          \<le> card ((nodes_of g \<union> set (dep # ds)) - dom (visited st))"
    by (intro card_mono) (auto simp: finite_nodes_of)
  then show ?case by auto
next
  case (6 g dep ds stack st x)
  have "card ((nodes_of g \<union> set ds) - dom (visited st))
          \<le> card ((nodes_of g \<union> set (dep # ds)) - dom (visited st))"
    by (intro card_mono) (auto simp: finite_nodes_of)
  then show ?case by auto
qed

fun dfs_roots :: "('k pykey \<times> 'k pykey list) list \<Rightarrow> 'k pykey list \<Rightarrow> 'k dfs_state
                 \<Rightarrow> pyerr + 'k dfs_state" where
  "dfs_roots g [] st = Inr st"
| "dfs_roots g (node # ns) st =
     (if visited st node = None then
        (case dfs g node [] st of
           Inl e \<Rightarrow> Inl e
         | Inr st' \<Rightarrow> dfs_roots g ns st')
      else dfs_roots g ns st)"

definition graph_of :: "('k pykey \<times> 'k task) list \<Rightarrow> ('k pykey \<times> 'k pykey list) list" where
  "graph_of tasks_by_id = map (\<lambda>(tid, t). (tid, dependencies t)) tasks_by_id"

definition detect_cycles :: "('k pykey \<times> 'k task) list \<Rightarrow> pyerr + 'k pykey set" where
  "detect_cycles tasks_by_id =
     (let graph = graph_of tasks_by_id in
      case dfs_roots graph (map fst graph) \<lparr>visited = Map.empty, in_cycle = {}\<rparr> of
        Inl e \<Rightarrow> Inl e
      | Inr st \<Rightarrow> Inr (in_cycle st))"

definition build_by_id :: "('a \<Rightarrow> 'k pykey option) \<Rightarrow> 'a list \<Rightarrow> ('k pykey \<times> 'a) list" where
  "build_by_id idf xs =
     fold (\<lambda>x d. case idf x of None \<Rightarrow> d | Some k \<Rightarrow> AList.update k x d) xs []"

section \<open>Score composition\<close>

text \<open>
  \<^verbatim>\<open>round(x, 3)\<close> rounds to the nearest multiple of one thousandth, a tie to the even one.
\<close>

definition round_half_even :: "rat \<Rightarrow> int" where
  "round_half_even q =
     (let f = \<lfloor>q\<rfloor>; d = q - of_int f in
      if d < 1/2 then f else if 1/2 < d then f + 1 else if even f then f else f + 1)"

definition round3 :: "rat \<Rightarrow> rat" where
  "round3 x = of_int (round_half_even (x * 1000)) / 1000"

fun join :: "string \<Rightarrow> string list \<Rightarrow> string" where
  "join sep [] = []"
| "join sep [x] = x"
| "join sep (x # y # ys) = x @ sep @ join sep (y # ys)"

definition base_score :: "weights \<Rightarrow> rat \<Rightarrow> rat \<Rightarrow> rat \<Rightarrow> rat \<Rightarrow> rat" where
  "base_score w urgency imp effort deps =
     urgency * w_urgency w + imp * w_importance w + effort * w_effort w + deps * w_deps w"

definition explain :: "rat \<Rightarrow> rat \<Rightarrow> rat \<Rightarrow> rat \<Rightarrow> bool \<Rightarrow> string" where
  "explain urgency imp effort deps cyclic =
     (let explanation_parts =
        (if urgency \<ge> 8/10 then [''Due very soon'']
         else if urgency \<ge> 6/10 then [''Upcoming deadline''] else []) @
        (if imp \<ge> 8/10 then [''Very important'']
         else if imp \<ge> 6/10 then [''Important''] else []) @
        (if effort \<ge> 7/10 then [''Quick win'']
         else if effort \<le> 3/10 then [''Large effort task''] else []) @
        (if deps > 0 then [''Unblocks other tasks''] else []) @
        (if cyclic then [''Part of circular dependency (penalized)''] else [])
      in if explanation_parts = []
         then ''Balanced priority based on urgency, importance, effort, and dependencies.''
         else join ''; '' explanation_parts)"

text \<open>The body of the scoring loop of \<^verbatim>\<open>score_tasks\<close> for one task.\<close>

definition score_task ::
  "pylib \<Rightarrow> weights \<Rightarrow> ('k pykey \<Rightarrow> rat option) \<Rightarrow> 'k pykey set \<Rightarrow> 'k task
     \<Rightarrow> pyerr + 'k scored_task" where
  "score_task py w dep_bonus cycles t =
     (let tid = get_id t;
          urgency = compute_urgency_score py (due_date t) in
      case normalize_importance py (importance t) of
        Inl e \<Rightarrow> Inl e
      | Inr imp \<Rightarrow>
          (case compute_effort_score py (estimated_hours t) of
             Inl e \<Rightarrow> Inl e
           | Inr effort \<Rightarrow>
               (let deps = (case dep_bonus tid of None \<Rightarrow> 0 | Some b \<Rightarrow> b);
                    base = base_score w urgency imp effort deps;
                    base = (if tid \<in> cycles then base - 2/10 else base)
                in Inr \<lparr>orig = t, score = round3 base,
                         explanation = explain urgency imp effort deps (tid \<in> cycles)\<rparr>)))"

fun map_err :: "('a \<Rightarrow> 'e + 'b) \<Rightarrow> 'a list \<Rightarrow> 'e + 'b list" where
  "map_err f [] = Inr []"
| "map_err f (x # xs) =
     (case f x of
        Inl e \<Rightarrow> Inl e
      | Inr y \<Rightarrow> (case map_err f xs of Inl e \<Rightarrow> Inl e | Inr ys \<Rightarrow> Inr (y # ys)))"

section \<open>Ordering\<close>

text \<open>
  The dictionaries \<^verbatim>\<open>indegree\<close> and \<^verbatim>\<open>adj\<close> are association lists. A subscript on a missing
  key raises \<^verbatim>\<open>KeyError\<close>; \<^verbatim>\<open>adj.setdefault(dep, []).append(tid)\<close> extends the list stored for
  \<open>dep\<close>, starting from the empty list when there is none.
\<close>

type_synonym 'k indegree = "('k pykey \<times> int) list"
type_synonym 'k adjacency = "('k pykey \<times> 'k pykey list) list"

definition deps_of :: "('k pykey \<times> 'k task) list \<Rightarrow> 'k pykey \<Rightarrow> 'k pykey list" where
  "deps_of tasks_by_id tid =
     (case map_of tasks_by_id tid of None \<Rightarrow> [] | Some t \<Rightarrow> dependencies t)"

fun add_edges :: "'k pykey \<Rightarrow> 'k pykey list \<Rightarrow> 'k indegree \<times> 'k adjacency
                  \<Rightarrow> pyerr + 'k indegree \<times> 'k adjacency" where
  "add_edges tid [] s = Inr s"
| "add_edges tid (dep # deps) (indegree, adj) =
     (if map_of indegree dep \<noteq> None then
        (case map_of indegree tid of
           None \<Rightarrow> Inl KeyError
         | Some n \<Rightarrow>
             add_edges tid deps
               (AList.update tid (n + 1) indegree,
                AList.update dep (graph_get adj dep @ [tid]) adj))
      else add_edges tid deps (indegree, adj))"

fun build_graph :: "('k pykey \<times> 'k task) list \<Rightarrow> 'k pykey list \<Rightarrow> 'k indegree \<times> 'k adjacency
                  \<Rightarrow> pyerr + 'k indegree \<times> 'k adjacency" where
  "build_graph tasks_by_id [] s = Inr s"
| "build_graph tasks_by_id (tid # tids) s =
     (case add_edges tid (deps_of tasks_by_id tid) s of
        Inl e \<Rightarrow> Inl e
      | Inr s' \<Rightarrow> build_graph tasks_by_id tids s')"

text \<open>The sort and selection key \<^verbatim>\<open>scored_by_id[_tid].get("score", 0.0)\<close>.\<close>

definition score_of :: "('k pykey \<times> 'k scored_task) list \<Rightarrow> 'k pykey \<Rightarrow> pyerr + rat" where
  "score_of scored_by_id tid =
     (case map_of scored_by_id tid of None \<Rightarrow> Inl KeyError | Some s \<Rightarrow> Inr (score s))"

text \<open>
  \<^verbatim>\<open>max(available, key=...)\<close> keeps the first element whose key is the largest;
  on an empty list it raises \<^verbatim>\<open>ValueError\<close>.
\<close>

fun max_from :: "('a \<Rightarrow> pyerr + rat) \<Rightarrow> 'a \<Rightarrow> rat \<Rightarrow> 'a list \<Rightarrow> pyerr + 'a" where
  "max_from key best bv [] = Inr best"
| "max_from key best bv (x # xs) =
     (case key x of
        Inl e \<Rightarrow> Inl e
      | Inr v \<Rightarrow> if v > bv then max_from key x v xs else max_from key best bv xs)"

definition max_by :: "('a \<Rightarrow> pyerr + rat) \<Rightarrow> 'a list \<Rightarrow> pyerr + 'a" where
  "max_by key xs =
     (case xs of
        [] \<Rightarrow> Inl ValueError
      | x # xs' \<Rightarrow> (case key x of Inl e \<Rightarrow> Inl e | Inr v \<Rightarrow> max_from key x v xs'))"

text \<open>The loop \<^verbatim>\<open>for nxt in adj.get(best_id, [])\<close>.\<close>

fun release :: "'k pykey list \<Rightarrow> 'k indegree \<Rightarrow> 'k pykey list
                  \<Rightarrow> pyerr + 'k indegree \<times> 'k pykey list" where
  "release [] indegree available = Inr (indegree, available)"
| "release (nxt # ns) indegree available =
     (case map_of indegree nxt of
        None \<Rightarrow> Inl KeyError
      | Some n \<Rightarrow>
          release ns (AList.update nxt (n - 1) indegree)
            (if n - 1 = 0 then available @ [nxt] else available))"

text \<open>
  The loop \<^verbatim>\<open>while available\<close>. \<^verbatim>\<open>available.remove(best_id)\<close> deletes the first occurrence of
  a value that \<^verbatim>\<open>max\<close> has just taken from the list.
\<close>

function kahn :: "('k pykey \<times> 'k scored_task) list \<Rightarrow> 'k adjacency \<Rightarrow> 'k indegree
                  \<Rightarrow> 'k pykey list \<Rightarrow> 'k pykey list \<Rightarrow> pyerr + 'k pykey list" where
  "kahn scored_by_id adj indegree available ordered_ids =
     (if available = [] then Inr ordered_ids
      else
        (case max_by (score_of scored_by_id) available of
           Inl e \<Rightarrow> Inl e
         | Inr best_id \<Rightarrow>
             (case release (graph_get adj best_id) indegree (remove1 best_id available) of
                Inl e \<Rightarrow> Inl e
              | Inr (indegree', available') \<Rightarrow>
                  kahn scored_by_id adj indegree' available' (ordered_ids @ [best_id]))))"
  by pat_completeness auto

definition pos_sum :: "('a \<times> int) list \<Rightarrow> nat" where
  "pos_sum al = sum_list (map (\<lambda>p. nat (snd p)) al)"

lemma pos_sum_update:
  "map_of al k = Some n \<Longrightarrow>
     pos_sum (AList.update k (n - 1) al) + (if 1 \<le> n then 1 else 0) = pos_sum al"
  by (induction al) (auto simp: pos_sum_def split: if_splits)

lemma release_measure:
  "release ns indegree available = Inr (indegree', available') \<Longrightarrow>
     pos_sum indegree' + length available' \<le> pos_sum indegree + length available"
proof (induction ns arbitrary: indegree available)
  case Nil
  then show ?case by simp
next
  case (Cons nxt ns)
  then obtain n where n: "map_of indegree nxt = Some n"
    by (auto split: option.splits)
  let ?i = "AList.update nxt (n - 1) indegree"
  let ?a = "if n - 1 = 0 then available @ [nxt] else available"
  from Cons.prems n have "release ns ?i ?a = Inr (indegree', available')" by simp
  from Cons.IH[OF this] have "pos_sum indegree' + length available' \<le> pos_sum ?i + length ?a" .
  moreover have "pos_sum ?i + length ?a \<le> pos_sum indegree + length available"
    using pos_sum_update[OF n] by (auto split: if_splits)
  ultimately show ?case by linarith
qed

lemma max_from_mem: "max_from key best bv xs = Inr b \<Longrightarrow> b = best \<or> b \<in> set xs"
  by (induction xs arbitrary: best bv) (auto split: sum.splits if_splits)

lemma max_by_mem: "max_by key xs = Inr b \<Longrightarrow> b \<in> set xs"
  by (auto simp: max_by_def split: list.splits sum.splits dest: max_from_mem)

termination kahn
proof (relation "measure (\<lambda>(sb, adj, indegree, available, ordered_ids).
                   pos_sum indegree + length available)", goal_cases)
  case 1
  show ?case by simp
next
  case (2 sb adj indegree available ordered_ids best_id x indegree' available')
  then have "best_id \<in> set available" by (auto dest: max_by_mem)
  then have "length (remove1 best_id available) < length available"
    by (simp add: length_remove1) (cases available; simp)
  moreover from 2 have "pos_sum indegree' + length available'
      \<le> pos_sum indegree + length (remove1 best_id available)"
    by (auto dest: release_measure)
  ultimately show ?case by simp
qed

text \<open>
  \<^verbatim>\<open>list.sort(key=..., reverse=True)\<close> computes every key, then sorts stably by descending
  key.
\<close>

definition sort_by_score_desc ::
  "('k pykey \<times> 'k scored_task) list \<Rightarrow> 'k pykey list \<Rightarrow> pyerr + 'k pykey list" where
  "sort_by_score_desc scored_by_id tids =
     (case map_err (score_of scored_by_id) tids of
        Inl e \<Rightarrow> Inl e
      | Inr keys \<Rightarrow> Inr (map fst (sort_key (\<lambda>p. - snd p) (zip tids keys))))"

definition lookup_task ::
  "('k pykey \<times> 'k scored_task) list \<Rightarrow> 'k pykey \<Rightarrow> pyerr + 'k scored_task" where
  "lookup_task scored_by_id tid =
     (case map_of scored_by_id tid of None \<Rightarrow> Inl KeyError | Some s \<Rightarrow> Inr s)"

text \<open>Everything in \<^verbatim>\<open>score_tasks\<close> after the scoring loop.\<close>

definition order_tasks ::
  "('k pykey \<times> 'k task) list \<Rightarrow> 'k pykey set \<Rightarrow> 'k scored_task list
     \<Rightarrow> pyerr + 'k scored_task list" where
  "order_tasks tasks_by_id cycles scored =
     (let scored_by_id = build_by_id (\<lambda>s. task_id (orig s)) scored;
          non_cycle_ids = filter (\<lambda>tid. tid \<notin> cycles) (map fst scored_by_id);
          cycle_ids = filter (\<lambda>tid. tid \<in> cycles) (map fst scored_by_id)
      in
      case build_graph tasks_by_id non_cycle_ids
             (map (\<lambda>tid. (tid, 0)) non_cycle_ids, map (\<lambda>tid. (tid, [])) non_cycle_ids) of
        Inl e \<Rightarrow> Inl e
      | Inr (indegree, adj) \<Rightarrow>
          (case kahn scored_by_id adj indegree
                  (filter (\<lambda>tid. (case map_of indegree tid of None \<Rightarrow> 0 | Some n \<Rightarrow> n) = 0)
                     non_cycle_ids) [] of
             Inl e \<Rightarrow> Inl e
           | Inr ordered_ids \<Rightarrow>
               (case sort_by_score_desc scored_by_id
                       (filter (\<lambda>tid. tid \<notin> set ordered_ids) non_cycle_ids) of
                  Inl e \<Rightarrow> Inl e
                | Inr remaining_non_cycle \<Rightarrow>
                    (case sort_by_score_desc scored_by_id cycle_ids of
                       Inl e \<Rightarrow> Inl e
                     | Inr cycle_sorted \<Rightarrow>
                         map_err (lookup_task scored_by_id)
                           (ordered_ids @ remaining_non_cycle @ cycle_sorted)))))"

definition score_tasks :: "pylib \<Rightarrow> 'k task list \<Rightarrow> string \<Rightarrow> pyerr + 'k scored_task list" where
  "score_tasks py tasks strategy =
     (let w = weights_for strategy;
          tasks_by_id = build_by_id task_id tasks
      in
      case detect_cycles tasks_by_id of
        Inl e \<Rightarrow> Inl e
      | Inr cycles \<Rightarrow>
          (let dep_bonus = compute_dependency_bonus tasks in
           case map_err (score_task py w dep_bonus cycles) tasks of
             Inl e \<Rightarrow> Inl e
           | Inr scored \<Rightarrow> order_tasks tasks_by_id cycles scored))"

section \<open>The two endpoints\<close>

text \<open>
  \<^verbatim>\<open>src/tasks/views.py\<close>. The request body is a JSON object; \<^verbatim>\<open>request.data.get(key, default)\<close>
  reads it. \<^verbatim>\<open>dict(t)\<close> together with the reading of the task's fields is the parameter
  \<open>to_dict\<close>; it may raise, and it yields the dictionary key Python would use for an
  identifier (\<^verbatim>\<open>True\<close> and \<^verbatim>\<open>1\<close> are one key there, while \<open>Key (JBool True)\<close> and
  \<open>Key (JNum 1)\<close> differ). \<^verbatim>\<open>enumerate(tasks_data)\<close> iterates over a list, over the
  characters of a string and over the keys of an object, and raises \<^verbatim>\<open>TypeError\<close> on
  anything else.
\<close>

datatype json =
    JNull
  | JBool bool
  | JNum rat
  | JStr string
  | JList "json list"
  | JObj "(string \<times> json) list"

datatype 'r body = ErrorBody string | TasksBody json "'r list"

datatype 'r response = Response nat "'r body"

definition data_get :: "(string \<times> json) list \<Rightarrow> string \<Rightarrow> json \<Rightarrow> json" where
  "data_get data key dflt = (case map_of data key of None \<Rightarrow> dflt | Some v \<Rightarrow> v)"

fun is_list :: "json \<Rightarrow> bool" where
  "is_list (JList _) = True"
| "is_list _ = False"

fun py_iter :: "json \<Rightarrow> pyerr + json list" where
  "py_iter (JList xs) = Inr xs"
| "py_iter (JStr s) = Inr (map (\<lambda>c. JStr [c]) s)"
| "py_iter (JObj kvs) = Inr (map (\<lambda>kv. JStr (fst kv)) kvs)"
| "py_iter _ = Inl TypeError"

definition setdefault_id :: "json task \<Rightarrow> nat \<Rightarrow> json task" where
  "setdefault_id t idx =
     (case task_id t of
        None \<Rightarrow> t\<lparr>task_id := Some (Key (JNum (of_nat (idx + 1))))\<rparr>
      | Some _ \<Rightarrow> t)"

fun normalize_tasks :: "(json \<Rightarrow> pyerr + json task) \<Rightarrow> nat \<Rightarrow> json list
                        \<Rightarrow> pyerr + json task list" where
  "normalize_tasks to_dict idx [] = Inr []"
| "normalize_tasks to_dict idx (t # ts) =
     (case to_dict t of
        Inl e \<Rightarrow> Inl e
      | Inr d \<Rightarrow>
          (case normalize_tasks to_dict (idx + 1) ts of
             Inl e \<Rightarrow> Inl e
           | Inr ds \<Rightarrow> Inr (setdefault_id d idx # ds)))"

text \<open>
  The call \<^verbatim>\<open>score_tasks(normalized, strategy=strategy)\<close> with whatever JSON value the request
  gave as strategy: \<^verbatim>\<open>STRATEGY_WEIGHTS.get\<close> raises \<^verbatim>\<open>TypeError\<close> on an unhashable key and
  takes the default for any other key that is not in the table.
\<close>

definition call_engine :: "pylib \<Rightarrow> json task list \<Rightarrow> json \<Rightarrow> pyerr + json scored_task list" where
  "call_engine py normalized strategy =
     (case strategy of
        JStr s \<Rightarrow> score_tasks py normalized s
      | JList _ \<Rightarrow> Inl TypeError
      | JObj _ \<Rightarrow> Inl TypeError
      | _ \<Rightarrow> score_tasks py normalized ''smart_balance'')"

definition AnalyzeTasksView_post ::
  "pylib \<Rightarrow> (json \<Rightarrow> pyerr + json task) \<Rightarrow> (string \<times> json) list
     \<Rightarrow> pyerr + json scored_task response" where
  "AnalyzeTasksView_post py to_dict data =
     (let strategy = data_get data ''strategy'' (JStr ''smart_balance'');
          tasks_data = data_get data ''tasks'' (JList [])
      in
      if \<not> is_list tasks_data then Inr (Response 400 (ErrorBody ''tasks must be a list''))
      else
        (case py_iter tasks_data of
           Inl e \<Rightarrow> Inl e
         | Inr items \<Rightarrow>
             (case normalize_tasks to_dict 0 items of
                Inl e \<Rightarrow> Inl e
              | Inr normalized \<Rightarrow>
                  (case call_engine py normalized strategy of
                     Inl e \<Rightarrow> Inl e
                   | Inr scored \<Rightarrow> Inr (Response 200 (TasksBody strategy scored))))))"

definition SuggestTasksView_post ::
  "pylib \<Rightarrow> (json \<Rightarrow> pyerr + json task) \<Rightarrow> (string \<times> json) list
     \<Rightarrow> pyerr + json scored_task response" where
  "SuggestTasksView_post py to_dict data =
     (let strategy = data_get data ''strategy'' (JStr ''smart_balance'');
          tasks_data = data_get data ''tasks'' (JList [])
      in
      case py_iter tasks_data of
        Inl e \<Rightarrow> Inl e
      | Inr items \<Rightarrow>
          (case normalize_tasks to_dict 0 items of
             Inl e \<Rightarrow> Inl e
           | Inr normalized \<Rightarrow>
               (case call_engine py normalized strategy of
                  Inl e \<Rightarrow> Inl e
                | Inr scored \<Rightarrow> Inr (Response 200 (TasksBody strategy (take 3 scored))))))"

section \<open>Concrete inputs used in the examples\<close>

definition demo_lib :: pylib where
  "demo_lib = \<lparr>today = 0, strptime_ymd = (\<lambda>_. None), float_of_str = (\<lambda>_. None),
      int_of_str = (\<lambda>_. None)\<rparr>"

definition mk_task :: "nat \<Rightarrow> nat list \<Rightarrow> nat task" where
  "mk_task i ds = \<lparr>task_id = Some (Key i), title = VNone, due_date = VNone, importance = VNone,
     estimated_hours = VNone, dependencies = map Key ds\<rparr>"

text \<open>
  A task due far in the future, of importance 1 and ten hours of work: with one dependent its
  weighted sum under \<^verbatim>\<open>smart_balance\<close> is 0.18.
\<close>

definition far_task :: "nat \<Rightarrow> nat list \<Rightarrow> nat task" where
  "far_task i ds = \<lparr>task_id = Some (Key i), title = VStr ''chore'', due_date = VDate 100,
     importance = VInt 1, estimated_hours = VInt 10, dependencies = map Key ds\<rparr>"

definition far_scored :: "nat \<Rightarrow> nat list \<Rightarrow> nat scored_task" where
  "far_scored i ds = \<lparr>orig = far_task i ds, score = - (2/100),
     explanation = ''Large effort task; Unblocks other tasks; Part of circular dependency (penalized)''\<rparr>"

definition urgent_task :: "nat \<Rightarrow> nat list \<Rightarrow> nat task" where
  "urgent_task i ds = \<lparr>task_id = Some (Key i), title = VStr ''B'', due_date = VDate 0,
     importance = VInt 9, estimated_hours = VFloat (Fin (1/2)), dependencies = map Key ds\<rparr>"

definition no_id_task :: "nat task" where
  "no_id_task = \<lparr>task_id = None, title = VStr ''untracked'', due_date = VNone, importance = VNone,
     estimated_hours = VNone, dependencies = []\<rparr>"

definition balanced :: string where
  "balanced = ''Balanced priority based on urgency, importance, effort, and dependencies.''"

section \<open>Notions used in the statements and in the proofs\<close>

text \<open>
  Two readings of a count of dependents: \<open>listing_tasks\<close> is the number of tasks of the
  batch whose dependency list contains the identifier; \<open>others_listing\<close> follows the
  specification's words and leaves the task itself out.
\<close>

definition listing_tasks :: "'k task list \<Rightarrow> 'k pykey \<Rightarrow> nat" where
  "listing_tasks tasks k = length (filter (\<lambda>u. k \<in> set (dependencies u)) tasks)"

definition others_listing :: "'k task list \<Rightarrow> nat \<Rightarrow> nat" where
  "others_listing tasks i =
     length (filter (\<lambda>j. j \<noteq> i \<and> get_id (tasks ! i) \<in> set (dependencies (tasks ! j)))
       [0..<length tasks])"

definition grays :: "'k dfs_state \<Rightarrow> 'k pykey set" where
  "grays st = {x. visited st x = Some Gray}"

definition edges :: "('a \<times> 'a list) list \<Rightarrow> ('a \<times> 'a) set" where
  "edges g = {(x, w). w \<in> set (graph_get g x)}"

definition clean :: "'k dfs_state \<Rightarrow> 'k pykey set" where
  "clean st = {x. visited st x = Some Black \<and> x \<notin> in_cycle st}"

definition dfs_inv :: "('k pykey \<times> 'k pykey list) list \<Rightarrow> 'k dfs_state \<Rightarrow> bool" where
  "dfs_inv g st \<longleftrightarrow>
     (\<forall>x \<in> clean st. \<forall>w \<in> set (graph_get g x). visited st w = Some Black)
   \<and> acyclic (edges g \<inter> (clean st \<times> clean st))"

definition the_score :: "('k pykey \<times> 'k scored_task) list \<Rightarrow> 'k pykey \<Rightarrow> rat" where
  "the_score sb k = (case map_of sb k of None \<Rightarrow> 0 | Some s \<Rightarrow> score s)"

definition orderable :: "('k pykey \<times> 'a) list \<Rightarrow> 'k pykey set \<Rightarrow> 'k pykey set" where
  "orderable sb cycles = {k \<in> fst ` set sb. k \<notin> cycles}"

definition orderable_deps ::
  "('k pykey \<times> 'k task) list \<Rightarrow> 'k pykey set \<Rightarrow> 'k pykey \<Rightarrow> 'k pykey list" where
  "orderable_deps tb N x = filter (\<lambda>d. d \<in> N) (deps_of tb x)"

text \<open>
  \<open>N\<close> is the set of orderable identifiers and \<open>D x\<close> the list of orderable dependencies of
  \<open>x\<close>, with repetitions. The counter of \<open>x\<close> is the number of entries of \<open>D x\<close> not yet
  emitted, and the available identifiers are the ones not yet emitted whose orderable
  dependencies have all been emitted.
\<close>

definition kahn_inv ::
  "'k pykey set \<Rightarrow> ('k pykey \<Rightarrow> 'k pykey list) \<Rightarrow> 'k adjacency \<Rightarrow> 'k indegree
     \<Rightarrow> 'k pykey list \<Rightarrow> 'k pykey list \<Rightarrow> bool" where
  "kahn_inv N D adj indegree available ordered_ids \<longleftrightarrow>
     fst ` set indegree = N
   \<and> (\<forall>d. set (graph_get adj d) \<subseteq> N)
   \<and> (\<forall>x \<in> N. \<forall>d. count_list (graph_get adj d) x = count_list (D x) d)
   \<and> set ordered_ids \<subseteq> N
   \<and> distinct (ordered_ids @ available)
   \<and> (\<forall>x \<in> N. map_of indegree x
          = Some (int (length (filter (\<lambda>d. d \<notin> set ordered_ids) (D x)))))
   \<and> set available = {x \<in> N. x \<notin> set ordered_ids \<and> set (D x) \<subseteq> set ordered_ids}
   \<and> (\<forall>x \<in> set ordered_ids. set (D x) \<subseteq> set ordered_ids)"

definition kahn_trace ::
  "'k pykey set \<Rightarrow> ('k pykey \<Rightarrow> 'k pykey list) \<Rightarrow> ('k pykey \<Rightarrow> pyerr + rat) \<Rightarrow> nat
     \<Rightarrow> 'k pykey list \<Rightarrow> bool" where
  "kahn_trace N D key i E \<longleftrightarrow>
     (\<forall>j. i \<le> j \<and> j < length E \<longrightarrow>
        set (D (E ! j)) \<subseteq> set (take j E)
      \<and> (\<forall>y \<in> N. y \<notin> set (take j E) \<and> set (D y) \<subseteq> set (take j E) \<longrightarrow>
           (\<forall>v w. key y = Inr v \<longrightarrow> key (E ! j) = Inr w \<longrightarrow> v \<le> w)))"

text \<open>
  The orderable identifiers of a batch are the identifiers of its tasks that are not in the
  cycle set. A task is ready, relative to a set of identifiers already placed, when each of
  its dependencies that is orderable has been placed.
\<close>

definition orderable_ids :: "'k task list \<Rightarrow> 'k pykey set \<Rightarrow> 'k pykey set" where
  "orderable_ids tasks cycles = {k. (\<exists>t \<in> set tasks. task_id t = Some k) \<and> k \<notin> cycles}"

definition cyclic_ids :: "'k task list \<Rightarrow> 'k pykey set \<Rightarrow> 'k pykey set" where
  "cyclic_ids tasks cycles = {k. (\<exists>t \<in> set tasks. task_id t = Some k) \<and> k \<in> cycles}"

definition ids_of :: "'k scored_task list \<Rightarrow> 'k pykey set" where
  "ids_of ss = (\<lambda>s. get_id (orig s)) ` set ss"

definition ready :: "'k pykey set \<Rightarrow> 'k pykey set \<Rightarrow> 'k scored_task \<Rightarrow> bool" where
  "ready N placed s \<longleftrightarrow> (\<forall>d \<in> set (dependencies (orig s)). d \<in> N \<longrightarrow> d \<in> placed)"

section \<open>Strategy table and normalizers\<close>

lemma weights_for_cases: "weights_for s \<in> snd ` set STRATEGY_WEIGHTS"
  by (auto simp: weights_for_def STRATEGY_WEIGHTS_def split: option.splits)

lemma weights_sum:
  "w_urgency (weights_for s) + w_importance (weights_for s) + w_effort (weights_for s)
     + w_deps (weights_for s) = 1"
  using weights_for_cases[of s] by (auto simp: STRATEGY_WEIGHTS_def smart_balance_def)

lemma weights_nonneg:
  "0 \<le> w_urgency (weights_for s)" "0 \<le> w_importance (weights_for s)"
  "0 \<le> w_effort (weights_for s)" "0 \<le> w_deps (weights_for s)"
  using weights_for_cases[of s] by (auto simp: STRATEGY_WEIGHTS_def smart_balance_def)

lemma weights_for_unknown:
  "strategy \<notin> {''fastest_wins'', ''high_impact'', ''deadline_driven'', ''smart_balance''}
     \<Longrightarrow> weights_for strategy = weights_for ''smart_balance''"
  by (simp add: weights_for_def STRATEGY_WEIGHTS_def)

lemma urgency_range: "0 \<le> compute_urgency_score py v \<and> compute_urgency_score py v \<le> 1"
  by (auto simp: compute_urgency_score_def Let_def split: option.splits)

lemma effort_range: "compute_effort_score py v = Inr e \<Longrightarrow> 0 \<le> e \<and> e \<le> 1"
  by (auto simp: compute_effort_score_def split: sum.splits option.splits if_splits)

lemma importance_range: "normalize_importance py v = Inr i \<Longrightarrow> 0 \<le> i \<and> i \<le> 1"
  by (auto simp: normalize_importance_def Let_def split: sum.splits option.splits if_splits)

lemma bonus_level_range: "0 \<le> bonus_level n \<and> bonus_level n \<le> 1"
  by (simp add: bonus_level_def)

text \<open>The three examples of the specification for \<^verbatim>\<open>normalize_importance\<close>.\<close>

lemma normalize_importance_0: "normalize_importance py (VInt 0) = Inr (1/10)"
  by (simp add: normalize_importance_def py_int_def)

lemma normalize_importance_15: "normalize_importance py (VInt 15) = Inr 1"
  by (simp add: normalize_importance_def py_int_def)

lemma normalize_importance_abc:
  "int_of_str py ''abc'' = None \<Longrightarrow> normalize_importance py (VStr ''abc'') = Inr (5/10)"
  by (simp add: normalize_importance_def py_int_def)

lemma normalize_importance_missing: "normalize_importance py VNone = Inr (5/10)"
  by (simp add: normalize_importance_def py_int_def)

text \<open>
  Claim C8. \<^verbatim>\<open>normalize_importance\<close> is meant to be total: it catches \<^verbatim>\<open>TypeError\<close> and
  \<^verbatim>\<open>ValueError\<close> of \<^verbatim>\<open>int(importance)\<close> and falls back to 5. For an infinite float
  \<^verbatim>\<open>int\<close> raises \<^verbatim>\<open>OverflowError\<close>, which is not caught: the function raises instead of
  returning a value.
\<close>

theorem normalize_importance_overflow:
  "normalize_importance py (VFloat PosInf) = Inl OverflowError"
  by (simp add: normalize_importance_def py_int_def)

text \<open>
  Claim C9. For every task list and every strategy name that is not one of the four names of
  the table, \<^verbatim>\<open>score_tasks\<close> gives exactly the result it gives for \<^verbatim>\<open>"smart_balance"\<close>; the
  lookup itself raises nothing.
\<close>

theorem score_tasks_unknown_strategy:
  assumes "strategy \<notin> {''fastest_wins'', ''high_impact'', ''deadline_driven'', ''smart_balance''}"
  shows "score_tasks py tasks strategy = score_tasks py tasks ''smart_balance''"
proof -
  from assms have w: "weights_for strategy = weights_for ''smart_balance''"
    by (rule weights_for_unknown)
  show ?thesis unfolding score_tasks_def w ..
qed

theorem score_tasks_unknown_strategy_witness:
  "''quickest'' \<notin> {''fastest_wins'', ''high_impact'', ''deadline_driven'', ''smart_balance''}
   \<and> score_tasks demo_lib [mk_task 1 [], mk_task 2 [1]] ''quickest''
       = score_tasks demo_lib [mk_task 1 [], mk_task 2 [1]] ''smart_balance''"
  using score_tasks_unknown_strategy[of "''quickest''" demo_lib "[mk_task 1 [], mk_task 2 [1]]"]
  by simp

section \<open>Dependency bonus: what is counted\<close>

lemma fold_count_one:
  "fold (\<lambda>dep c. c(dep := Suc (c dep))) ds c k = c k + count_list ds k"
  by (induction ds arbitrary: c) auto

lemma fold_count_all:
  "fold (\<lambda>t c. fold (\<lambda>dep c. c(dep := Suc (c dep))) (dependencies t) c) tasks c k
     = c k + sum_list (map (\<lambda>t. count_list (dependencies t) k) tasks)"
  by (induction tasks arbitrary: c) (auto simp: fold_count_one)

lemma count_deps_eq:
  "count_deps tasks k = sum_list (map (\<lambda>t. count_list (dependencies t) k) tasks)"
  by (simp add: count_deps_def fold_count_all)

lemma count_list_distinct: "distinct ds \<Longrightarrow> count_list ds k = (if k \<in> set ds then 1 else 0)"
  by (induction ds) auto

lemma count_deps_distinct:
  "\<forall>u \<in> set tasks. distinct (dependencies u) \<Longrightarrow> count_deps tasks k = listing_tasks tasks k"
  unfolding count_deps_eq listing_tasks_def
  by (induction tasks) (auto simp: count_list_distinct)

lemma fold_bonus:
  "fold (\<lambda>t bonus. bonus(get_id t \<mapsto> bonus_level (cnt (get_id t)))) tasks m k
     = (if k \<in> get_id ` set tasks then Some (bonus_level (cnt k)) else m k)"
  by (induction tasks arbitrary: m) auto

lemma compute_dependency_bonus_eq:
  "compute_dependency_bonus tasks k
     = (if k \<in> get_id ` set tasks then Some (bonus_level (count_deps tasks k)) else None)"
  by (simp add: compute_dependency_bonus_def Let_def fold_bonus)

text \<open>
  Claim C7, as amended. In a batch whose dependency lists repeat no identifier, the bonus of a
  task is determined by the number of tasks of the batch, the task itself included, that list
  its identifier: none gives 0.0, one gives 0.3, two or three give 0.6, four or more give 1.0.
\<close>

theorem dependency_bonus_by_listing_tasks:
  assumes "\<forall>u \<in> set tasks. distinct (dependencies u)" and "t \<in> set tasks"
  shows "compute_dependency_bonus tasks (get_id t)
           = Some (bonus_level (listing_tasks tasks (get_id t)))
         \<and> (listing_tasks tasks (get_id t) = 0
              \<longrightarrow> compute_dependency_bonus tasks (get_id t) = Some 0)
         \<and> (listing_tasks tasks (get_id t) = 1
              \<longrightarrow> compute_dependency_bonus tasks (get_id t) = Some (3/10))
         \<and> (listing_tasks tasks (get_id t) \<in> {2, 3}
              \<longrightarrow> compute_dependency_bonus tasks (get_id t) = Some (6/10))
         \<and> (4 \<le> listing_tasks tasks (get_id t)
              \<longrightarrow> compute_dependency_bonus tasks (get_id t) = Some 1)"
proof -
  have "compute_dependency_bonus tasks (get_id t)
          = Some (bonus_level (listing_tasks tasks (get_id t)))"
    using assms by (simp add: compute_dependency_bonus_eq count_deps_distinct)
  then show ?thesis by (auto simp: bonus_level_def)
qed

theorem dependency_bonus_by_listing_tasks_witness:
  "compute_dependency_bonus
      [mk_task 1 [], mk_task 2 [1], mk_task 3 [1, 2], mk_task 4 [1], mk_task 5 [1]] (Key 1) = Some 1
   \<and> compute_dependency_bonus
      [mk_task 1 [], mk_task 2 [1], mk_task 3 [1, 2], mk_task 4 [1], mk_task 5 [1]] (Key 5) = Some 0"
  using dependency_bonus_by_listing_tasks[of
      "[mk_task 1 [], mk_task 2 [1], mk_task 3 [1, 2], mk_task 4 [1], mk_task 5 [1]]" "mk_task 1 []"]
    dependency_bonus_by_listing_tasks[of
      "[mk_task 1 [], mk_task 2 [1], mk_task 3 [1, 2], mk_task 4 [1], mk_task 5 [1]]" "mk_task 5 [1]"]
  by (simp add: mk_task_def get_id_def listing_tasks_def bonus_level_def)

text \<open>
  A task that lists itself and is listed by no other task gets 0.3, not the 0.0 of a task
  that no other task lists.
\<close>

theorem dependency_bonus_counts_self_counterexample:
  "compute_dependency_bonus [mk_task 1 [1]] (get_id ([mk_task 1 [1]] ! 0))
     \<noteq> Some (bonus_level (others_listing [mk_task 1 [1]] 0))"
  by (simp add: compute_dependency_bonus_eq count_deps_eq others_listing_def mk_task_def
      get_id_def bonus_level_def)

section \<open>Cycle detection: marks\<close>

lemma dfs_in_cycle_mono:
  "dfs g node stack st = Inr st' \<Longrightarrow> in_cycle st \<subseteq> in_cycle st'"
  "dfs_deps g ds stack st = Inr st' \<Longrightarrow> in_cycle st \<subseteq> in_cycle st'"
proof (induct g node stack st and g ds stack st arbitrary: st' and st' rule: dfs_dfs_deps.induct)
  case (1 g node stack st)
  from 1(2) obtain st1 where
    a: "dfs_deps g (graph_get g node) (stack @ [node])
          (st\<lparr>visited := (visited st)(node \<mapsto> Gray)\<rparr>) = Inr st1"
    and b: "st' = st1\<lparr>visited := (visited st1)(node \<mapsto> Black)\<rparr>"
    by (auto split: sum.splits)
  from 1(1)[OF a] b show ?case by simp
next
  case (2 g stack st)
  then show ?case by simp
next
  case (3 g dep ds stack st)
  show ?case
  proof (cases "visited st dep")
    case None
    with 3(5) obtain st1 where a: "dfs g dep stack st = Inr st1"
      and b: "dfs_deps g ds stack st1 = Inr st'"
      by (auto split: sum.splits)
    from 3(1)[OF None a] 3(2)[OF None a b] show ?thesis by blast
  next
    case (Some c)
    show ?thesis
    proof (cases c)
      case Gray
      with Some 3(5) obtain idx where i: "index_of stack dep = Some idx"
        and b: "dfs_deps g ds stack (st\<lparr>in_cycle := in_cycle st \<union> set (drop idx stack)\<rparr>) = Inr st'"
        by (auto split: option.splits)
      from 3(3)[OF Some Gray i b] show ?thesis by simp
    next
      case Black
      with Some 3(5) have "dfs_deps g ds stack st = Inr st'" by simp
      from 3(4)[OF Some Black this] show ?thesis .
    qed
  qed
qed

lemma dfs_roots_in_cycle_mono:
  "dfs_roots g ns st = Inr st' \<Longrightarrow> in_cycle st \<subseteq> in_cycle st'"
proof (induction ns arbitrary: st)
  case Nil
  then show ?case by simp
next
  case (Cons n ns)
  show ?case
  proof (cases "visited st n = None")
    case True
    with Cons.prems obtain st1 where a: "dfs g n [] st = Inr st1"
      and b: "dfs_roots g ns st1 = Inr st'"
      by (auto split: sum.splits)
    from dfs_in_cycle_mono(1)[OF a] Cons.IH[OF b] show ?thesis by blast
  next
    case False
    with Cons show ?thesis by auto
  qed
qed

lemma index_of_Some_iff: "(\<exists>i. index_of xs x = Some i) \<longleftrightarrow> x \<in> set xs"
  by (induction xs) auto

lemma index_of_drop: "index_of xs x = Some i \<Longrightarrow> drop i xs = dropWhile (\<lambda>y. y \<noteq> x) xs"
  by (induction xs arbitrary: i) (auto split: if_splits)

text \<open>
  Grey nodes are nodes of the stack, so \<^verbatim>\<open>stack.index\<close> finds its argument: the functions
  of the model never yield \<^verbatim>\<open>ValueError\<close>.
\<close>

lemma dfs_no_error:
  "grays st \<subseteq> set stack \<Longrightarrow>
     \<exists>st'. dfs g node stack st = Inr st' \<and> grays st' \<subseteq> grays st"
  "grays st \<subseteq> set stack \<Longrightarrow>
     \<exists>st'. dfs_deps g ds stack st = Inr st' \<and> grays st' \<subseteq> grays st"
proof (induct g node stack st and g ds stack st rule: dfs_dfs_deps.induct)
  case (1 g node stack st)
  let ?st1 = "st\<lparr>visited := (visited st)(node \<mapsto> Gray)\<rparr>"
  have "grays ?st1 \<subseteq> set (stack @ [node])" using 1(2) by (auto simp: grays_def)
  from 1(1)[OF this] obtain st2 where
    a: "dfs_deps g (graph_get g node) (stack @ [node]) ?st1 = Inr st2"
    and b: "grays st2 \<subseteq> grays ?st1" by blast
  have "grays (st2\<lparr>visited := (visited st2)(node \<mapsto> Black)\<rparr>) \<subseteq> grays st"
    using b by (auto simp: grays_def split: if_splits)
  with a show ?case by simp
next
  case (2 g stack st)
  then show ?case by simp
next
  case (3 g dep ds stack st)
  show ?case
  proof (cases "visited st dep")
    case None
    from 3(1)[OF None 3(5)] obtain st1 where a: "dfs g dep stack st = Inr st1"
      and b: "grays st1 \<subseteq> grays st" by blast
    from b 3(5) have "grays st1 \<subseteq> set stack" by blast
    from 3(2)[OF None a this] obtain st2 where "dfs_deps g ds stack st1 = Inr st2"
      and "grays st2 \<subseteq> grays st1" by blast
    with a b None show ?thesis by auto
  next
    case (Some c)
    show ?thesis
    proof (cases c)
      case Gray
      with Some 3(5) have "dep \<in> set stack" by (auto simp: grays_def)
      then obtain idx where i: "index_of stack dep = Some idx"
        using index_of_Some_iff by metis
      let ?st1 = "st\<lparr>in_cycle := in_cycle st \<union> set (drop idx stack)\<rparr>"
      have g: "grays ?st1 = grays st" by (simp add: grays_def)
      with 3(5) have "grays ?st1 \<subseteq> set stack" by simp
      from 3(3)[OF Some Gray i this] g Some Gray i show ?thesis by auto
    next
      case Black
      from 3(4)[OF Some Black 3(5)] Some Black show ?thesis by auto
    qed
  qed
qed

lemma dfs_roots_no_error:
  "grays st = {} \<Longrightarrow> \<exists>st'. dfs_roots g ns st = Inr st' \<and> grays st' = {}"
proof (induction ns arbitrary: st)
  case Nil
  then show ?case by simp
next
  case (Cons n ns)
  show ?case
  proof (cases "visited st n = None")
    case True
    from dfs_no_error(1)[of st "[]" g n] Cons.prems obtain st1 where
      a: "dfs g n [] st = Inr st1" and "grays st1 = {}" by auto
    from Cons.IH[OF this(2)] a True show ?thesis by auto
  next
    case False
    with Cons show ?thesis by auto
  qed
qed



section \<open>Scores\<close>

lemma rhe_le: "q \<le> of_int n \<Longrightarrow> round_half_even q \<le> n"
proof -
  assume a: "q \<le> of_int n"
  then have f: "\<lfloor>q\<rfloor> \<le> n" by (simp add: floor_le_iff)
  show ?thesis
  proof (cases "\<lfloor>q\<rfloor> = n")
    case True
    with a have "q - of_int \<lfloor>q\<rfloor> < 1/2" by simp
    then show ?thesis using True by (simp add: round_half_even_def Let_def)
  next
    case False
    with f have "\<lfloor>q\<rfloor> + 1 \<le> n" by simp
    then show ?thesis by (auto simp: round_half_even_def Let_def)
  qed
qed

lemma rhe_ge: "of_int n \<le> q \<Longrightarrow> n \<le> round_half_even q"
proof -
  assume a: "of_int n \<le> q"
  then have f: "n \<le> \<lfloor>q\<rfloor>" by (simp add: le_floor_iff)
  then show ?thesis by (auto simp: round_half_even_def Let_def)
qed

lemma round3_le: "x \<le> 1 \<Longrightarrow> round3 x \<le> 1"
  using rhe_le[of "x * 1000" 1000] by (simp add: round3_def)

lemma round3_ge: "- (1/5) \<le> x \<Longrightarrow> - (1/5) \<le> round3 x"
  using rhe_ge[of "-200" "x * 1000"] by (simp add: round3_def)

lemma round3_of_thousandth: "round3 (of_int k / 1000) = of_int k / 1000"
  by (simp add: round3_def round_half_even_def)

text \<open>Every signal is a multiple of one tenth, every weight of one hundredth.\<close>

lemma urgency_tenth: "compute_urgency_score py v * 10 \<in> \<int>"
  by (auto simp: compute_urgency_score_def Let_def split: option.splits)

lemma effort_values:
  "compute_effort_score py v = Inr e \<Longrightarrow> e \<in> {5/10, 1, 7/10, 4/10, 2/10}"
  by (auto simp: compute_effort_score_def split: sum.splits option.splits if_splits)

lemma effort_tenth: "compute_effort_score py v = Inr e \<Longrightarrow> e * 10 \<in> \<int>"
  by (drule effort_values) (elim insertE emptyE; hypsubst_thin; simp)

lemma importance_tenth: "normalize_importance py v = Inr i \<Longrightarrow> i * 10 \<in> \<int>"
  by (auto simp: normalize_importance_def Let_def split: sum.splits) (metis Ints_of_int)

lemma bonus_level_tenth: "bonus_level n * 10 \<in> \<int>"
  by (simp add: bonus_level_def)

lemma weights_hundredth:
  "w_urgency (weights_for s) * 100 \<in> \<int>" "w_importance (weights_for s) * 100 \<in> \<int>"
  "w_effort (weights_for s) * 100 \<in> \<int>" "w_deps (weights_for s) * 100 \<in> \<int>"
  using weights_for_cases[of s] by (auto simp: STRATEGY_WEIGHTS_def smart_balance_def)

lemma tenth_times_hundredth:
  fixes a b :: rat
  assumes "a * 10 \<in> \<int>" "b * 100 \<in> \<int>"
  shows "a * b * 1000 \<in> \<int>"
proof -
  have "a * b * 1000 = (a * 10) * (b * 100)" by simp
  with assms show ?thesis by (simp only: Ints_mult)
qed

lemma base_score_thousandth:
  assumes "u * 10 \<in> \<int>" "i * 10 \<in> \<int>" "e * 10 \<in> \<int>" "d * 10 \<in> \<int>"
  shows "base_score (weights_for s) u i e d * 1000 \<in> \<int>"
proof -
  let ?w = "weights_for s"
  have "base_score ?w u i e d * 1000
      = u * w_urgency ?w * 1000 + i * w_importance ?w * 1000
        + e * w_effort ?w * 1000 + d * w_deps ?w * 1000"
    by (simp add: base_score_def algebra_simps)
  also have "\<dots> \<in> \<int>"
    by (intro Ints_add tenth_times_hundredth assms weights_hundredth)
  finally show ?thesis .
qed

lemma round3_thousandth:
  assumes "x * 1000 \<in> \<int>"
  shows "round3 x = x"
proof -
  from assms obtain k :: int where "x * 1000 = of_int k" by (auto elim: Ints_cases)
  then have x: "x = of_int k / 1000" by simp
  show ?thesis unfolding x by (rule round3_of_thousandth)
qed

lemma base_score_range:
  assumes "0 \<le> u \<and> u \<le> 1" "0 \<le> i \<and> i \<le> 1" "0 \<le> e \<and> e \<le> 1" "0 \<le> d \<and> d \<le> 1"
  shows "0 \<le> base_score (weights_for s) u i e d \<and> base_score (weights_for s) u i e d \<le> 1"
proof -
  let ?w = "weights_for s"
  have n: "0 \<le> w_urgency ?w" "0 \<le> w_importance ?w" "0 \<le> w_effort ?w" "0 \<le> w_deps ?w"
    by (rule weights_nonneg)+
  have lo: "0 \<le> u * w_urgency ?w" "0 \<le> i * w_importance ?w" "0 \<le> e * w_effort ?w"
    "0 \<le> d * w_deps ?w"
    using assms n by simp_all
  have hi: "u * w_urgency ?w \<le> w_urgency ?w" "i * w_importance ?w \<le> w_importance ?w"
    "e * w_effort ?w \<le> w_effort ?w" "d * w_deps ?w \<le> w_deps ?w"
    using assms n by (simp_all add: mult_left_le_one_le)
  from lo hi weights_sum[of s] show ?thesis unfolding base_score_def by linarith
qed

section \<open>From the scored list to the output\<close>

lemma map_err_Inr:
  "map_err f xs = Inr ys \<Longrightarrow> list_all2 (\<lambda>x y. f x = Inr y) xs ys"
  by (induction xs arbitrary: ys) (auto split: sum.splits)

lemma map_err_Inr_set:
  "map_err f xs = Inr ys \<Longrightarrow> y \<in> set ys \<Longrightarrow> \<exists>x \<in> set xs. f x = Inr y"
  by (induction xs arbitrary: ys) (auto split: sum.splits)

lemma map_err_Inl:
  "map_err f xs = Inl e \<Longrightarrow> \<exists>x \<in> set xs. f x = Inl e"
  by (induction xs) (auto split: sum.splits)

lemma map_err_total:
  "(\<And>x. x \<in> set xs \<Longrightarrow> \<exists>y. f x = Inr y) \<Longrightarrow> \<exists>ys. map_err f xs = Inr ys"
  by (induction xs) (fastforce split: sum.splits)+

lemma update_set: "set (AList.update k v al) \<subseteq> insert (k, v) (set al)"
  by (induction al) auto

lemma build_by_id_fold_set:
  "(k, x) \<in> set (fold (\<lambda>x d. case idf x of None \<Rightarrow> d | Some k \<Rightarrow> AList.update k x d) xs d0)
     \<Longrightarrow> (k, x) \<in> set d0 \<or> (x \<in> set xs \<and> idf x = Some k)"
proof (induction xs arbitrary: d0)
  case Nil
  then show ?case by simp
next
  case (Cons a xs)
  show ?case
  proof (cases "idf a")
    case None
    with Cons show ?thesis by fastforce
  next
    case (Some k')
    with Cons.prems have "(k, x) \<in> set (fold (\<lambda>x d. case idf x of None \<Rightarrow> d | Some k \<Rightarrow> AList.update k x d) xs (AList.update k' a d0))"
      by simp
    from Cons.IH[OF this] update_set[of k' a d0] Some show ?thesis by auto
  qed
qed

lemma build_by_id_set:
  "(k, x) \<in> set (build_by_id idf xs) \<Longrightarrow> x \<in> set xs \<and> idf x = Some k"
  unfolding build_by_id_def by (drule build_by_id_fold_set) simp

lemma lookup_task_mem: "lookup_task sb tid = Inr s \<Longrightarrow> (tid, s) \<in> set sb"
  by (auto simp: lookup_task_def split: option.splits dest: map_of_SomeD)

lemma order_tasks_subset:
  assumes "order_tasks tasks_by_id cycles scored = Inr out"
  shows "set out \<subseteq> set scored"
proof
  fix s assume s: "s \<in> set out"
  let ?sb = "build_by_id (\<lambda>s. task_id (orig s)) scored"
  from assms obtain ids where "map_err (lookup_task ?sb) ids = Inr out"
    by (auto simp: order_tasks_def Let_def split: sum.splits prod.splits)
  from map_err_Inr_set[OF this s] obtain tid where "lookup_task ?sb tid = Inr s" by blast
  then have "(tid, s) \<in> set ?sb" by (rule lookup_task_mem)
  then show "s \<in> set scored" by (auto dest: build_by_id_set)
qed

lemma score_task_Inr:
  assumes "score_task py w dep_bonus cycles t = Inr s"
  shows "orig s = t \<and> (\<exists>imp effort.
           normalize_importance py (importance t) = Inr imp
         \<and> compute_effort_score py (estimated_hours t) = Inr effort
         \<and> score s = round3 (base_score w (compute_urgency_score py (due_date t)) imp effort
                          (case dep_bonus (get_id t) of None \<Rightarrow> 0 | Some b \<Rightarrow> b)
                        - (if get_id t \<in> cycles then 2/10 else 0)))"
  using assms by (auto simp: score_task_def Let_def split: sum.splits)

lemma dep_bonus_lookup:
  "(case compute_dependency_bonus tasks k of None \<Rightarrow> 0 | Some b \<Rightarrow> b) * 10 \<in> \<int>
   \<and> 0 \<le> (case compute_dependency_bonus tasks k of None \<Rightarrow> 0 | Some b \<Rightarrow> b)
   \<and> (case compute_dependency_bonus tasks k of None \<Rightarrow> 0 | Some b \<Rightarrow> b) \<le> 1"
  using bonus_level_tenth bonus_level_range by (auto simp: compute_dependency_bonus_eq)

lemma score_tasks_scored:
  assumes "score_tasks py tasks strategy = Inr out" and "s \<in> set out"
  obtains cycles where "detect_cycles (build_by_id task_id tasks) = Inr cycles"
    and "orig s \<in> set tasks"
    and "score_task py (weights_for strategy) (compute_dependency_bonus tasks) cycles (orig s) = Inr s"
proof -
  from assms(1) obtain cycles scored where
    c: "detect_cycles (build_by_id task_id tasks) = Inr cycles"
    and m: "map_err (score_task py (weights_for strategy) (compute_dependency_bonus tasks) cycles) tasks
          = Inr scored"
    and o: "order_tasks (build_by_id task_id tasks) cycles scored = Inr out"
    by (auto simp: score_tasks_def Let_def split: sum.splits)
  from order_tasks_subset[OF o] assms(2) have "s \<in> set scored" by blast
  from map_err_Inr_set[OF m this] obtain t where t: "t \<in> set tasks"
    and st: "score_task py (weights_for strategy) (compute_dependency_bonus tasks) cycles t = Inr s"
    by blast
  from score_task_Inr[OF st] have "orig s = t" by simp
  with c t st that show thesis by simp
qed

section \<open>Bounds and the cycle penalty\<close>

lemma far_tasks_scored:
  "score_tasks demo_lib [far_task 1 [2], far_task 2 [1]] ''smart_balance''
     = Inr [far_scored 1 [2], far_scored 2 [1]]"
  by code_simp

lemma far_tasks_cycles:
  "detect_cycles (build_by_id task_id [far_task 1 [2], far_task 2 [1]]) = Inr {Key 1, Key 2}"
  by code_simp

text \<open>
  Claim C10. Whatever the tasks and the strategy string, every score that \<^verbatim>\<open>score_tasks\<close>
  returns lies between -0.2 and 1.0: every signal lies in [0, 1], the weights of the selected
  strategy are non-negative and sum to 1, only the penalty of 0.2 lowers the weighted sum,
  and rounding to three places keeps both bounds.
\<close>

theorem score_within_bounds:
  assumes "score_tasks py tasks strategy = Inr out" and "s \<in> set out"
  shows "- (2/10) \<le> score s \<and> score s \<le> 1
         \<and> w_urgency (weights_for strategy) + w_importance (weights_for strategy)
             + w_effort (weights_for strategy) + w_deps (weights_for strategy) = 1"
proof -
  from assms obtain cycles where
    st: "score_task py (weights_for strategy) (compute_dependency_bonus tasks) cycles (orig s) = Inr s"
    by (rule score_tasks_scored)
  let ?d = "case compute_dependency_bonus tasks (get_id (orig s)) of None \<Rightarrow> 0 | Some b \<Rightarrow> b"
  let ?u = "compute_urgency_score py (due_date (orig s))"
  from score_task_Inr[OF st] obtain imp effort where
    i: "normalize_importance py (importance (orig s)) = Inr imp"
    and e: "compute_effort_score py (estimated_hours (orig s)) = Inr effort"
    and sc: "score s = round3 (base_score (weights_for strategy) ?u imp effort ?d
                - (if get_id (orig s) \<in> cycles then 2/10 else 0))"
    by blast
  have d: "0 \<le> ?d \<and> ?d \<le> 1" using dep_bonus_lookup[of tasks "get_id (orig s)"] by simp
  have b: "0 \<le> base_score (weights_for strategy) ?u imp effort ?d
         \<and> base_score (weights_for strategy) ?u imp effort ?d \<le> 1"
    by (rule base_score_range[OF urgency_range importance_range[OF i] effort_range[OF e] d])
  let ?x = "base_score (weights_for strategy) ?u imp effort ?d
              - (if get_id (orig s) \<in> cycles then 2/10 else 0)"
  from b have x: "- (1/5) \<le> ?x" "?x \<le> 1" by auto
  have "- (1/5) \<le> round3 ?x" "round3 ?x \<le> 1"
    by (rule round3_ge[OF x(1)], rule round3_le[OF x(2)])
  with sc weights_sum[of strategy] show ?thesis by simp
qed

text \<open>
  Claim C3. For a returned task whose identifier is in the cycle set, the score is the weighted
  sum of the four signals minus 0.2, rounded to three decimal places; nothing clamps it, and
  since the difference has at most three decimal places the rounding returns it unchanged.
  The witness shows a negative score.
\<close>

theorem cyclic_score_is_composite_minus_penalty:
  assumes "score_tasks py tasks strategy = Inr out"
    and "detect_cycles (build_by_id task_id tasks) = Inr cycles"
    and "s \<in> set out"
    and "get_id (orig s) \<in> cycles"
  shows "\<exists>imp effort.
           normalize_importance py (importance (orig s)) = Inr imp
         \<and> compute_effort_score py (estimated_hours (orig s)) = Inr effort
         \<and> score s = round3
             (compute_urgency_score py (due_date (orig s)) * w_urgency (weights_for strategy)
              + imp * w_importance (weights_for strategy)
              + effort * w_effort (weights_for strategy)
              + (case compute_dependency_bonus tasks (get_id (orig s)) of None \<Rightarrow> 0 | Some b \<Rightarrow> b)
                  * w_deps (weights_for strategy)
              - 2/10)
         \<and> score s =
              compute_urgency_score py (due_date (orig s)) * w_urgency (weights_for strategy)
              + imp * w_importance (weights_for strategy)
              + effort * w_effort (weights_for strategy)
              + (case compute_dependency_bonus tasks (get_id (orig s)) of None \<Rightarrow> 0 | Some b \<Rightarrow> b)
                  * w_deps (weights_for strategy)
              - 2/10"
proof -
  from assms(1,3) obtain cycles' where
    c: "detect_cycles (build_by_id task_id tasks) = Inr cycles'"
    and st: "score_task py (weights_for strategy) (compute_dependency_bonus tasks) cycles' (orig s) = Inr s"
    by (rule score_tasks_scored)
  from c assms(2) have [simp]: "cycles' = cycles" by simp
  let ?d = "case compute_dependency_bonus tasks (get_id (orig s)) of None \<Rightarrow> 0 | Some b \<Rightarrow> b"
  let ?u = "compute_urgency_score py (due_date (orig s))"
  from score_task_Inr[OF st] assms(4) obtain imp effort where
    i: "normalize_importance py (importance (orig s)) = Inr imp"
    and e: "compute_effort_score py (estimated_hours (orig s)) = Inr effort"
    and sc: "score s = round3 (base_score (weights_for strategy) ?u imp effort ?d - 2/10)"
    by auto
  have d: "?d * 10 \<in> \<int>" using dep_bonus_lookup[of tasks "get_id (orig s)"] by simp
  have "base_score (weights_for strategy) ?u imp effort ?d * 1000 \<in> \<int>"
    by (rule base_score_thousandth[OF urgency_tenth importance_tenth[OF i] effort_tenth[OF e] d])
  then have "(base_score (weights_for strategy) ?u imp effort ?d - 2/10) * 1000 \<in> \<int>"
    by (simp add: algebra_simps)
  then have r: "round3 (base_score (weights_for strategy) ?u imp effort ?d - 2/10)
      = base_score (weights_for strategy) ?u imp effort ?d - 2/10"
    by (rule round3_thousandth)
  from i e sc r show ?thesis unfolding base_score_def by (intro exI[of _ imp] exI[of _ effort]) simp
qed

theorem score_within_bounds_witness:
  "score_tasks demo_lib [far_task 1 [2], far_task 2 [1]] ''smart_balance''
     = Inr [far_scored 1 [2], far_scored 2 [1]]
   \<and> - (2/10) \<le> score (far_scored 1 [2]) \<and> score (far_scored 1 [2]) \<le> 1"
  using score_within_bounds[OF far_tasks_scored, of "far_scored 1 [2]"] far_tasks_scored
  by simp

theorem cyclic_score_is_composite_minus_penalty_witness:
  "score_tasks demo_lib [far_task 1 [2], far_task 2 [1]] ''smart_balance''
     = Inr [far_scored 1 [2], far_scored 2 [1]]
   \<and> detect_cycles (build_by_id task_id [far_task 1 [2], far_task 2 [1]]) = Inr {Key 1, Key 2}
   \<and> get_id (orig (far_scored 1 [2])) \<in> {Key 1, Key 2}
   \<and> score (far_scored 1 [2])
       = 2/10 * (35/100) + 1/10 * (35/100) + 2/10 * (15/100) + 3/10 * (15/100) - 2/10
   \<and> score (far_scored 1 [2]) < 0"
  using cyclic_score_is_composite_minus_penalty[OF far_tasks_scored far_tasks_cycles,
      of "far_scored 1 [2]"] far_tasks_scored far_tasks_cycles
  by (simp add: far_scored_def far_task_def get_id_def)

section \<open>A payload that is not a list\<close>

lemma score_tasks_empty: "score_tasks py [] strategy = Inr []"
  by (simp add: score_tasks_def detect_cycles_def build_by_id_def graph_of_def order_tasks_def
      compute_dependency_bonus_def count_deps_def sort_by_score_desc_def)

text \<open>
  Claim C5. The analysis endpoint answers a payload that is not a list with status 400. The
  suggestion endpoint has no such test: for the payload \<^verbatim>\<open>{"tasks": {}}\<close> it runs the engine
  on the empty list and answers with status 200, and for \<^verbatim>\<open>{"tasks": null}\<close> it raises
  \<^verbatim>\<open>TypeError\<close>, which is a server error.
\<close>

theorem suggest_accepts_non_list_payload:
  "AnalyzeTasksView_post py to_dict [(''tasks'', JObj [])]
     = Inr (Response 400 (ErrorBody ''tasks must be a list''))
   \<and> SuggestTasksView_post py to_dict [(''tasks'', JObj [])]
     = Inr (Response 200 (TasksBody (JStr ''smart_balance'') []))
   \<and> SuggestTasksView_post py to_dict [(''tasks'', JNull)] = Inl TypeError"
  by (simp add: AnalyzeTasksView_post_def SuggestTasksView_post_def data_get_def call_engine_def
      score_tasks_empty)

section \<open>Dictionaries built from a list\<close>

lemma update_keys_mem: "fst ` set (AList.update k v al) = insert k (fst ` set al)"
  by (simp add: AList.dom_update)

lemma build_fold_keys:
  "fst ` set (fold (\<lambda>x d. case idf x of None \<Rightarrow> d | Some k \<Rightarrow> AList.update k x d) xs d0)
     = fst ` set d0 \<union> {k. \<exists>x \<in> set xs. idf x = Some k}"
proof (induction xs arbitrary: d0)
  case Nil
  then show ?case by simp
next
  case (Cons a xs)
  show ?case
  proof (cases "idf a")
    case None
    then show ?thesis using Cons.IH[of d0] by auto
  next
    case (Some k)
    then show ?thesis using Cons.IH[of "AList.update k a d0"] by (auto simp: update_keys_mem)
  qed
qed

lemma build_by_id_keys:
  "fst ` set (build_by_id idf xs) = {k. \<exists>x \<in> set xs. idf x = Some k}"
  by (simp add: build_by_id_def build_fold_keys)

lemma build_fold_distinct:
  "distinct (map fst d0) \<Longrightarrow>
     distinct (map fst (fold (\<lambda>x d. case idf x of None \<Rightarrow> d | Some k \<Rightarrow> AList.update k x d) xs d0))"
proof (induction xs arbitrary: d0)
  case Nil
  then show ?case by simp
next
  case (Cons a xs)
  then show ?case by (cases "idf a") (auto simp: AList.distinct_update)
qed

lemma build_by_id_distinct: "distinct (map fst (build_by_id idf xs))"
  by (simp add: build_by_id_def build_fold_distinct)

lemma update_map_snd:
  "AList.update k (f x) (map (\<lambda>p. (fst p, f (snd p))) d) = map (\<lambda>p. (fst p, f (snd p))) (AList.update k x d)"
  by (induction d) auto

lemma build_fold_map:
  "fold (\<lambda>x d. case idf x of None \<Rightarrow> d | Some k \<Rightarrow> AList.update k x d) (map f xs)
       (map (\<lambda>p. (fst p, f (snd p))) d0)
     = map (\<lambda>p. (fst p, f (snd p)))
         (fold (\<lambda>x d. case idf (f x) of None \<Rightarrow> d | Some k \<Rightarrow> AList.update k x d) xs d0)"
proof (induction xs arbitrary: d0)
  case Nil
  then show ?case by simp
next
  case (Cons a xs)
  show ?case
  proof (cases "idf (f a)")
    case None
    then show ?thesis using Cons.IH[of d0] by simp
  next
    case (Some k)
    then show ?thesis using Cons.IH[of "AList.update k a d0"] by (simp add: update_map_snd)
  qed
qed

lemma build_by_id_map:
  "build_by_id idf (map f xs) = map (\<lambda>p. (fst p, f (snd p))) (build_by_id (\<lambda>x. idf (f x)) xs)"
  using build_fold_map[of idf f xs "[]"] by (simp add: build_by_id_def)

lemma update_fresh: "k \<notin> fst ` set al \<Longrightarrow> AList.update k v al = al @ [(k, v)]"
  by (induction al) auto

lemma build_fold_all_distinct:
  assumes "\<forall>x \<in> set xs. idf x \<noteq> None" and "distinct (map idf xs)"
    and "\<forall>x \<in> set xs. \<forall>k. idf x = Some k \<longrightarrow> k \<notin> fst ` set d0"
  shows "fold (\<lambda>x d. case idf x of None \<Rightarrow> d | Some k \<Rightarrow> AList.update k x d) xs d0
           = d0 @ map (\<lambda>x. (the (idf x), x)) xs"
  using assms
proof (induction xs arbitrary: d0)
  case Nil
  then show ?case by simp
next
  case (Cons a xs)
  from Cons.prems(1) obtain k where k: "idf a = Some k" by auto
  with Cons.prems(3) have fresh: "k \<notin> fst ` set d0" by simp
  have "\<forall>x\<in>set xs. \<forall>k'. idf x = Some k' \<longrightarrow> k' \<notin> fst ` set (d0 @ [(k, a)])"
  proof (intro ballI allI impI)
    fix x k' assume x: "x \<in> set xs" and k': "idf x = Some k'"
    with Cons.prems(3) have "k' \<notin> fst ` set d0" by simp
    moreover from Cons.prems(2) x k have "idf x \<noteq> Some k" by force
    ultimately show "k' \<notin> fst ` set (d0 @ [(k, a)])" using k' by auto
  qed
  with Cons.IH[of "d0 @ [(k, a)]"] Cons.prems(1,2) k fresh show ?case
    by (simp add: update_fresh)
qed

lemma build_by_id_all_distinct:
  assumes "\<forall>x \<in> set xs. idf x \<noteq> None" and "distinct (map idf xs)"
  shows "build_by_id idf xs = map (\<lambda>x. (the (idf x), x)) xs"
  using build_fold_all_distinct[OF assms, of "[]"] by (simp add: build_by_id_def)

section \<open>Selection and release\<close>

lemma max_from_spec:
  assumes "\<forall>x \<in> set xs. \<exists>v. key x = Inr v" and "key best = Inr bv"
  shows "\<exists>b v. max_from key best bv xs = Inr b \<and> (b = best \<or> b \<in> set xs) \<and> key b = Inr v
            \<and> bv \<le> v \<and> (\<forall>y \<in> set xs. \<forall>w. key y = Inr w \<longrightarrow> w \<le> v)"
  using assms
proof (induction xs arbitrary: best bv)
  case Nil
  then show ?case by simp
next
  case (Cons x xs)
  from Cons.prems(1) obtain v where v: "key x = Inr v" by auto
  show ?case
  proof (cases "v > bv")
    case True
    from Cons.IH[of x v] Cons.prems(1) v obtain b u where
      "max_from key x v xs = Inr b" "b = x \<or> b \<in> set xs" "key b = Inr u" "v \<le> u"
      "\<forall>y \<in> set xs. \<forall>w. key y = Inr w \<longrightarrow> w \<le> u"
      by auto
    with v True show ?thesis by (intro exI[of _ b] exI[of _ u]) auto
  next
    case False
    from Cons.IH[of best bv] Cons.prems obtain b u where
      "max_from key best bv xs = Inr b" "b = best \<or> b \<in> set xs" "key b = Inr u" "bv \<le> u"
      "\<forall>y \<in> set xs. \<forall>w. key y = Inr w \<longrightarrow> w \<le> u"
      by auto
    with v False show ?thesis by (intro exI[of _ b] exI[of _ u]) auto
  qed
qed

lemma max_by_spec:
  assumes "xs \<noteq> []" and "\<forall>x \<in> set xs. \<exists>v. key x = Inr v"
  shows "\<exists>b v. max_by key xs = Inr b \<and> b \<in> set xs \<and> key b = Inr v
            \<and> (\<forall>y \<in> set xs. \<forall>w. key y = Inr w \<longrightarrow> w \<le> v)"
proof -
  from assms(1) obtain x xs' where xs: "xs = x # xs'" by (cases xs) auto
  with assms(2) obtain bv where bv: "key x = Inr bv" by auto
  from max_from_spec[of xs' key x bv] assms(2) xs bv obtain b v where
    "max_from key x bv xs' = Inr b" "b = x \<or> b \<in> set xs'" "key b = Inr v" "bv \<le> v"
    "\<forall>y \<in> set xs'. \<forall>w. key y = Inr w \<longrightarrow> w \<le> v"
    by auto
  with xs bv show ?thesis
    by (intro exI[of _ b] exI[of _ v]) (auto simp: max_by_def)
qed

lemma map_of_update_eq:
  "map_of (AList.update k v al) x = (if x = k then Some v else map_of al x)"
  by (simp add: AList.update_conv')

lemma release_spec:
  assumes "set ns \<subseteq> fst ` set indegree"
  shows "\<exists>indegree' added.
           release ns indegree available = Inr (indegree', available @ added)
         \<and> fst ` set indegree' = fst ` set indegree
         \<and> (\<forall>x. map_of indegree' x = map_option (\<lambda>n. n - int (count_list ns x)) (map_of indegree x))
         \<and> distinct added
         \<and> set added = {x \<in> set ns. \<exists>n. map_of indegree x = Some n \<and> 0 < n \<and> n \<le> int (count_list ns x)}"
  using assms
proof (induction ns arbitrary: indegree available)
  case Nil
  then show ?case by (auto simp: option.map_ident intro!: exI[of _ "[]"])
next
  case (Cons nxt ns)
  from Cons.prems have "nxt \<in> fst ` set indegree" by simp
  then obtain n where n: "map_of indegree nxt = Some n"
    by (metis domD dom_map_of_conv_image_fst)
  let ?i = "AList.update nxt (n - 1) indegree"
  let ?a = "if n - 1 = 0 then available @ [nxt] else available"
  have keys: "fst ` set ?i = fst ` set indegree"
    using \<open>nxt \<in> fst ` set indegree\<close> by (auto simp: update_keys_mem)
  with Cons.prems have "set ns \<subseteq> fst ` set ?i" by simp
  from Cons.IH[OF this, of ?a] obtain indegree' added where
    r: "release ns ?i ?a = Inr (indegree', ?a @ added)"
    and k: "fst ` set indegree' = fst ` set ?i"
    and m: "\<forall>x. map_of indegree' x = map_option (\<lambda>n. n - int (count_list ns x)) (map_of ?i x)"
    and d: "distinct added"
    and s: "set added = {x \<in> set ns. \<exists>n. map_of ?i x = Some n \<and> 0 < n \<and> n \<le> int (count_list ns x)}"
    by blast
  let ?added = "(if n - 1 = 0 then [nxt] else []) @ added"
  have 1: "release (nxt # ns) indegree available = Inr (indegree', available @ ?added)"
    using n r by simp
  have 2: "fst ` set indegree' = fst ` set indegree" using k keys by simp
  have 3: "\<forall>x. map_of indegree' x
             = map_option (\<lambda>n. n - int (count_list (nxt # ns) x)) (map_of indegree x)"
  proof
    fix x
    show "map_of indegree' x
            = map_option (\<lambda>n. n - int (count_list (nxt # ns) x)) (map_of indegree x)"
      using m[rule_format, of x] n by (cases "x = nxt") (auto simp: map_of_update_eq)
  qed
  have nxt_added: "nxt \<in> set added \<longleftrightarrow> nxt \<in> set ns \<and> 0 < n - 1 \<and> n - 1 \<le> int (count_list ns nxt)"
    using s by (auto simp: map_of_update_eq)
  have other: "\<And>x. x \<noteq> nxt \<Longrightarrow> x \<in> set added \<longleftrightarrow>
      x \<in> set ns \<and> (\<exists>n. map_of indegree x = Some n \<and> 0 < n \<and> n \<le> int (count_list ns x))"
    using s by (auto simp: map_of_update_eq)
  have 4: "distinct ?added" using d nxt_added by auto
  have 5: "set ?added = {x \<in> set (nxt # ns).
             \<exists>n. map_of indegree x = Some n \<and> 0 < n \<and> n \<le> int (count_list (nxt # ns) x)}"
  proof (intro set_eqI iffI)
    fix x assume "x \<in> set ?added"
    then consider "x = nxt" "n - 1 = 0" | "x \<in> set added" by (auto split: if_splits)
    then show "x \<in> {x \<in> set (nxt # ns).
             \<exists>n. map_of indegree x = Some n \<and> 0 < n \<and> n \<le> int (count_list (nxt # ns) x)}"
    proof cases
      case 1
      with n show ?thesis by auto
    next
      case 2
      show ?thesis
      proof (cases "x = nxt")
        case True
        with 2 nxt_added n show ?thesis by auto
      next
        case False
        with 2 other[OF False] show ?thesis by auto
      qed
    qed
  next
    fix x assume x: "x \<in> {x \<in> set (nxt # ns).
             \<exists>n. map_of indegree x = Some n \<and> 0 < n \<and> n \<le> int (count_list (nxt # ns) x)}"
    show "x \<in> set ?added"
    proof (cases "x = nxt")
      case True
      with x n have n0: "0 < n" "n \<le> 1 + int (count_list ns nxt)" by auto
      show ?thesis
      proof (cases "n - 1 = 0")
        case True
        with \<open>x = nxt\<close> show ?thesis by simp
      next
        case False
        with n0 have "0 < n - 1" "n - 1 \<le> int (count_list ns nxt)" by auto
        moreover from this have "nxt \<in> set ns"
          by (cases "nxt \<in> set ns") (auto simp: count_list_0_iff)
        ultimately show ?thesis using nxt_added \<open>x = nxt\<close> by simp
      qed
    next
      case False
      with x other[OF False] show ?thesis by auto
    qed
  qed
  from 1 2 3 4 5 show ?case by blast
qed

section \<open>The graph of the ordering phase\<close>

lemma graph_get_update:
  "graph_get (AList.update k v adj) d = (if d = k then v else graph_get adj d)"
  by (simp add: graph_get_def map_of_update_eq)

lemma key_iff_map_of: "k \<in> fst ` set al \<longleftrightarrow> map_of al k \<noteq> None"
  by (simp add: map_of_eq_None_iff)

lemma add_edges_spec:
  assumes "tid \<in> fst ` set indegree"
  shows "\<exists>indegree' adj'.
           add_edges tid deps (indegree, adj) = Inr (indegree', adj')
         \<and> fst ` set indegree' = fst ` set indegree
         \<and> (\<forall>x. map_of indegree' x =
               (if x = tid
                then map_option (\<lambda>n. n + int (length (filter (\<lambda>d. d \<in> fst ` set indegree) deps)))
                       (map_of indegree x)
                else map_of indegree x))
         \<and> (\<forall>d. graph_get adj' d = graph_get adj d
               @ replicate (count_list (filter (\<lambda>d. d \<in> fst ` set indegree) deps) d) tid)"
  using assms
proof (induction deps arbitrary: indegree adj)
  case Nil
  then show ?case by (auto simp: option.map_ident)
next
  case (Cons dep deps)
  let ?K = "fst ` set indegree"
  show ?case
  proof (cases "dep \<in> ?K")
    case False
    then have none: "map_of indegree dep = None" by (simp add: key_iff_map_of)
    from Cons.IH[OF Cons.prems, of adj] obtain indegree' adj' where
      "add_edges tid deps (indegree, adj) = Inr (indegree', adj')"
      "fst ` set indegree' = ?K"
      "\<forall>x. map_of indegree' x =
               (if x = tid
                then map_option (\<lambda>n. n + int (length (filter (\<lambda>d. d \<in> ?K) deps))) (map_of indegree x)
                else map_of indegree x)"
      "\<forall>d. graph_get adj' d = graph_get adj d @ replicate (count_list (filter (\<lambda>d. d \<in> ?K) deps) d) tid"
      by blast
    with none False show ?thesis by auto
  next
    case True
    then have some: "map_of indegree dep \<noteq> None" by (simp add: key_iff_map_of)
    from Cons.prems obtain n where n: "map_of indegree tid = Some n"
      by (auto simp: key_iff_map_of)
    let ?i = "AList.update tid (n + 1) indegree"
    let ?a = "AList.update dep (graph_get adj dep @ [tid]) adj"
    have keys: "fst ` set ?i = ?K" using Cons.prems by (auto simp: update_keys_mem)
    then have "tid \<in> fst ` set ?i" using Cons.prems by simp
    from Cons.IH[OF this, of ?a] keys obtain indegree' adj' where
      r: "add_edges tid deps (?i, ?a) = Inr (indegree', adj')"
      and k: "fst ` set indegree' = ?K"
      and m: "\<forall>x. map_of indegree' x =
               (if x = tid
                then map_option (\<lambda>n. n + int (length (filter (\<lambda>d. d \<in> ?K) deps))) (map_of ?i x)
                else map_of ?i x)"
      and g: "\<forall>d. graph_get adj' d = graph_get ?a d @ replicate (count_list (filter (\<lambda>d. d \<in> ?K) deps) d) tid"
      by auto
    have 1: "add_edges tid (dep # deps) (indegree, adj) = Inr (indegree', adj')"
      using some n r by auto
    have 3: "\<forall>x. map_of indegree' x =
               (if x = tid
                then map_option (\<lambda>n. n + int (length (filter (\<lambda>d. d \<in> ?K) (dep # deps))))
                       (map_of indegree x)
                else map_of indegree x)"
      using m n True by (auto simp: map_of_update_eq)
    have 4: "\<forall>d. graph_get adj' d = graph_get adj d
               @ replicate (count_list (filter (\<lambda>d. d \<in> ?K) (dep # deps)) d) tid"
      using g True by (auto simp: graph_get_update replicate_append_same)
    from 1 k 3 4 show ?thesis by blast
  qed
qed

lemma count_list_replicate: "count_list (replicate n a) x = (if x = a then n else 0)"
  by (induction n) auto

lemma build_graph_spec:
  assumes "set tids \<subseteq> fst ` set indegree" and "distinct tids"
  shows "\<exists>indegree' adj'.
           build_graph tb tids (indegree, adj) = Inr (indegree', adj')
         \<and> fst ` set indegree' = fst ` set indegree
         \<and> (\<forall>x. map_of indegree' x =
               (if x \<in> set tids
                then map_option
                       (\<lambda>n. n + int (length (filter (\<lambda>d. d \<in> fst ` set indegree) (deps_of tb x))))
                       (map_of indegree x)
                else map_of indegree x))
         \<and> (\<forall>d x. count_list (graph_get adj' d) x = count_list (graph_get adj d) x
               + (if x \<in> set tids
                  then count_list (filter (\<lambda>d. d \<in> fst ` set indegree) (deps_of tb x)) d else 0))
         \<and> (\<forall>d. set (graph_get adj' d) \<subseteq> set (graph_get adj d) \<union> set tids)"
  using assms
proof (induction tids arbitrary: indegree adj)
  case Nil
  then show ?case by simp
next
  case (Cons tid tids)
  let ?K = "fst ` set indegree"
  let ?D = "\<lambda>x. filter (\<lambda>d. d \<in> ?K) (deps_of tb x)"
  from Cons.prems have "tid \<in> ?K" by simp
  from add_edges_spec[OF this, of "deps_of tb tid" adj] obtain i1 a1 where
    e: "add_edges tid (deps_of tb tid) (indegree, adj) = Inr (i1, a1)"
    and k1: "fst ` set i1 = ?K"
    and m1: "\<forall>x. map_of i1 x =
               (if x = tid then map_option (\<lambda>n. n + int (length (?D tid))) (map_of indegree x)
                else map_of indegree x)"
    and g1: "\<forall>d. graph_get a1 d = graph_get adj d @ replicate (count_list (?D tid) d) tid"
    by blast
  from Cons.prems k1 have "set tids \<subseteq> fst ` set i1" "distinct tids" by auto
  from Cons.IH[OF this, of a1] k1 obtain i2 a2 where
    b: "build_graph tb tids (i1, a1) = Inr (i2, a2)"
    and k2: "fst ` set i2 = ?K"
    and m2: "\<forall>x. map_of i2 x =
               (if x \<in> set tids then map_option (\<lambda>n. n + int (length (?D x))) (map_of i1 x)
                else map_of i1 x)"
    and g2: "\<forall>d x. count_list (graph_get a2 d) x = count_list (graph_get a1 d) x
               + (if x \<in> set tids then count_list (?D x) d else 0)"
    and s2: "\<forall>d. set (graph_get a2 d) \<subseteq> set (graph_get a1 d) \<union> set tids"
    by auto
  have 1: "build_graph tb (tid # tids) (indegree, adj) = Inr (i2, a2)" using e b by simp
  have nin: "tid \<notin> set tids" using Cons.prems by simp
  have 3: "\<forall>x. map_of i2 x =
               (if x \<in> set (tid # tids)
                then map_option (\<lambda>n. n + int (length (?D x))) (map_of indegree x)
                else map_of indegree x)"
    using m1 m2 nin by auto
  have 4: "\<forall>d x. count_list (graph_get a2 d) x = count_list (graph_get adj d) x
               + (if x \<in> set (tid # tids) then count_list (?D x) d else 0)"
    using g1 g2 nin by (auto simp: count_list_append count_list_replicate)
  have 5: "\<forall>d. set (graph_get a2 d) \<subseteq> set (graph_get adj d) \<union> set (tid # tids)"
  proof
    fix d
    have "set (graph_get a1 d) \<subseteq> set (graph_get adj d) \<union> {tid}"
      using g1 by auto
    with s2[rule_format, of d] show "set (graph_get a2 d) \<subseteq> set (graph_get adj d) \<union> set (tid # tids)"
      by auto
  qed
  from 1 k2 3 4 5 show ?case by blast
qed

lemma graph_get_init: "graph_get (map (\<lambda>tid. (tid, [])) tids) d = []"
  by (induction tids) (auto simp: graph_get_def)

lemma map_of_init: "map_of (map (\<lambda>tid. (tid, 0::int)) tids) x = (if x \<in> set tids then Some 0 else None)"
  by (induction tids) auto

section \<open>The invariant of the selection loop\<close>

lemma length_filter_split:
  "length (filter P xs) = length (filter (\<lambda>d. P d \<and> d \<noteq> b) xs) + count_list (filter P xs) b"
  by (induction xs) auto

lemma count_list_filter: "P b \<Longrightarrow> count_list (filter P xs) b = count_list xs b"
  by (induction xs) auto

lemma filter_empty_subset: "filter (\<lambda>d. d \<notin> A) xs = [] \<longleftrightarrow> set xs \<subseteq> A"
  by (auto simp: filter_empty_conv)

lemma kahn_step:
  assumes inv: "kahn_inv N D adj indegree available ordered_ids"
    and best: "best \<in> set available"
  shows "\<exists>indegree' added.
           release (graph_get adj best) indegree (remove1 best available)
             = Inr (indegree', remove1 best available @ added)
         \<and> kahn_inv N D adj indegree' (remove1 best available @ added) (ordered_ids @ [best])"
proof -
  let ?O = "set ordered_ids"
  let ?ns = "graph_get adj best"
  from inv have keys: "fst ` set indegree = N"
    and adjN: "\<forall>d. set (graph_get adj d) \<subseteq> N"
    and cnt: "\<forall>x \<in> N. \<forall>d. count_list (graph_get adj d) x = count_list (D x) d"
    and oN: "?O \<subseteq> N"
    and dist: "distinct (ordered_ids @ available)"
    and ind: "\<forall>x \<in> N. map_of indegree x = Some (int (length (filter (\<lambda>d. d \<notin> ?O) (D x))))"
    and av: "set available = {x \<in> N. x \<notin> ?O \<and> set (D x) \<subseteq> ?O}"
    and closed: "\<forall>x \<in> ?O. set (D x) \<subseteq> ?O"
    by (auto simp: kahn_inv_def)
  from best av have bN: "best \<in> N" and bO: "best \<notin> ?O" and bD: "set (D best) \<subseteq> ?O" by auto
  have "set ?ns \<subseteq> fst ` set indegree" using adjN keys by simp
  from release_spec[OF this, of "remove1 best available"] obtain indegree' added where
    r: "release ?ns indegree (remove1 best available) = Inr (indegree', remove1 best available @ added)"
    and k': "fst ` set indegree' = fst ` set indegree"
    and m': "\<forall>x. map_of indegree' x = map_option (\<lambda>n. n - int (count_list ?ns x)) (map_of indegree x)"
    and d': "distinct added"
    and s': "set added = {x \<in> set ?ns. \<exists>n. map_of indegree x = Some n \<and> 0 < n \<and> n \<le> int (count_list ?ns x)}"
    by blast
  let ?O' = "set (ordered_ids @ [best])"
  have rem: "\<And>x. x \<in> N \<Longrightarrow> length (filter (\<lambda>d. d \<notin> ?O) (D x))
      = length (filter (\<lambda>d. d \<notin> ?O') (D x)) + count_list ?ns x"
  proof -
    fix x assume x: "x \<in> N"
    have "length (filter (\<lambda>d. d \<notin> ?O) (D x))
        = length (filter (\<lambda>d. d \<notin> ?O \<and> d \<noteq> best) (D x)) + count_list (filter (\<lambda>d. d \<notin> ?O) (D x)) best"
      by (rule length_filter_split)
    also have "count_list (filter (\<lambda>d. d \<notin> ?O) (D x)) best = count_list (D x) best"
      using bO by (simp add: count_list_filter)
    also have "\<dots> = count_list ?ns x" using cnt x by simp
    also have "filter (\<lambda>d. d \<notin> ?O \<and> d \<noteq> best) (D x) = filter (\<lambda>d. d \<notin> ?O') (D x)"
      by (rule filter_cong) auto
    finally show "length (filter (\<lambda>d. d \<notin> ?O) (D x))
      = length (filter (\<lambda>d. d \<notin> ?O') (D x)) + count_list ?ns x" .
  qed
  have ind': "\<forall>x \<in> N. map_of indegree' x = Some (int (length (filter (\<lambda>d. d \<notin> ?O') (D x))))"
  proof
    fix x assume x: "x \<in> N"
    from m' ind x rem[OF x]
    show "map_of indegree' x = Some (int (length (filter (\<lambda>d. d \<notin> ?O') (D x))))" by simp
  qed
  have added_char: "\<And>x. x \<in> set added \<longleftrightarrow>
      x \<in> N \<and> x \<notin> ?O' \<and> \<not> set (D x) \<subseteq> ?O \<and> set (D x) \<subseteq> ?O'"
  proof -
    fix x
    show "x \<in> set added \<longleftrightarrow> x \<in> N \<and> x \<notin> ?O' \<and> \<not> set (D x) \<subseteq> ?O \<and> set (D x) \<subseteq> ?O'"
    proof
      assume "x \<in> set added"
      with s' obtain n where xn: "x \<in> set ?ns" and n: "map_of indegree x = Some n"
        and n0: "0 < n" and nc: "n \<le> int (count_list ?ns x)" by auto
      from xn adjN have xN: "x \<in> N" by auto
      from ind xN n have neq: "n = int (length (filter (\<lambda>d. d \<notin> ?O) (D x)))" by simp
      with n0 have notsub: "\<not> set (D x) \<subseteq> ?O"
        using filter_empty_subset[of ?O "D x"] by auto
      from neq nc rem[OF xN] have "length (filter (\<lambda>d. d \<notin> ?O') (D x)) = 0" by simp
      then have sub': "set (D x) \<subseteq> ?O'" using filter_empty_subset[of ?O' "D x"] by simp
      from notsub closed have "x \<notin> ?O" by auto
      moreover from notsub bD have "x \<noteq> best" by auto
      ultimately show "x \<in> N \<and> x \<notin> ?O' \<and> \<not> set (D x) \<subseteq> ?O \<and> set (D x) \<subseteq> ?O'"
        using xN notsub sub' by simp
    next
      assume a: "x \<in> N \<and> x \<notin> ?O' \<and> \<not> set (D x) \<subseteq> ?O \<and> set (D x) \<subseteq> ?O'"
      then have xN: "x \<in> N" by simp
      from a have "best \<in> set (D x)" by auto
      then have "count_list (D x) best \<noteq> 0" by (simp add: count_list_0_iff)
      then have "0 < count_list (D x) best" by simp
      with cnt xN have c: "0 < count_list ?ns x" by simp
      then have xn: "x \<in> set ?ns" by (cases "x \<in> set ?ns") (auto simp: count_list_0_iff)
      from a have "filter (\<lambda>d. d \<notin> ?O') (D x) = []" using filter_empty_subset[of ?O' "D x"] by simp
      with rem[OF xN] have e: "length (filter (\<lambda>d. d \<notin> ?O) (D x)) = count_list ?ns x" by simp
      from ind xN have "map_of indegree x = Some (int (length (filter (\<lambda>d. d \<notin> ?O) (D x))))" by simp
      with e c xn s' show "x \<in> set added" by auto
    qed
  qed
  have remset: "set (remove1 best available) = set available - {best}"
    using dist by simp
  have av': "set (remove1 best available @ added)
      = {x \<in> N. x \<notin> ?O' \<and> set (D x) \<subseteq> ?O'}"
  proof (intro set_eqI iffI)
    fix x assume "x \<in> set (remove1 best available @ added)"
    then consider "x \<in> set available" "x \<noteq> best" | "x \<in> set added" using remset by auto
    then show "x \<in> {x \<in> N. x \<notin> ?O' \<and> set (D x) \<subseteq> ?O'}"
    proof cases
      case 1
      with av show ?thesis by auto
    next
      case 2
      with added_char[of x] show ?thesis by simp
    qed
  next
    fix x assume x: "x \<in> {x \<in> N. x \<notin> ?O' \<and> set (D x) \<subseteq> ?O'}"
    show "x \<in> set (remove1 best available @ added)"
    proof (cases "set (D x) \<subseteq> ?O")
      case True
      with x av have "x \<in> set available" "x \<noteq> best" by auto
      with remset show ?thesis by simp
    next
      case False
      with x added_char[of x] show ?thesis by simp
    qed
  qed
  have disj: "\<And>x. x \<in> set added \<Longrightarrow> x \<notin> ?O' \<and> x \<notin> set available"
  proof -
    fix x assume "x \<in> set added"
    with added_char[of x] have "x \<notin> ?O'" "\<not> set (D x) \<subseteq> ?O" by simp_all
    with av show "x \<notin> ?O' \<and> x \<notin> set available" by auto
  qed
  have dist': "distinct ((ordered_ids @ [best]) @ remove1 best available @ added)"
    using dist d' bO disj remset by (auto simp: distinct_remove1)
  have closed': "\<forall>x \<in> ?O'. set (D x) \<subseteq> ?O'" using closed bD by auto
  have "kahn_inv N D adj indegree' (remove1 best available @ added) (ordered_ids @ [best])"
    unfolding kahn_inv_def
    using k' keys adjN cnt oN bN dist' ind' av' closed' by (intro conjI) auto
  with r show ?thesis by blast
qed

lemma score_of_key: "x \<in> fst ` set sb \<Longrightarrow> \<exists>v. score_of sb x = Inr v"
  by (auto simp: score_of_def key_iff_map_of split: option.splits)

lemma kahn_spec:
  assumes "kahn_inv N D adj indegree available ordered_ids" and "N \<subseteq> fst ` set sb"
  shows "\<exists>suf. kahn sb adj indegree available ordered_ids = Inr (ordered_ids @ suf)
         \<and> distinct (ordered_ids @ suf) \<and> set (ordered_ids @ suf) \<subseteq> N
         \<and> kahn_trace N D (score_of sb) (length ordered_ids) (ordered_ids @ suf)
         \<and> (\<forall>y \<in> N. y \<notin> set (ordered_ids @ suf) \<longrightarrow> \<not> set (D y) \<subseteq> set (ordered_ids @ suf))"
  using assms
proof (induction sb adj indegree available ordered_ids rule: kahn.induct)
  case (1 sb adj indegree available ordered_ids)
  note inv = "1.prems"(1)
  from inv have oN: "set ordered_ids \<subseteq> N"
    and dist: "distinct (ordered_ids @ available)"
    and av: "set available = {x \<in> N. x \<notin> set ordered_ids \<and> set (D x) \<subseteq> set ordered_ids}"
    by (auto simp: kahn_inv_def)
  show ?case
  proof (cases "available = []")
    case True
    have "kahn sb adj indegree available ordered_ids = Inr (ordered_ids @ [])"
      using True by simp
    moreover have "kahn_trace N D (score_of sb) (length ordered_ids) (ordered_ids @ [])"
      unfolding kahn_trace_def by (intro allI impI, elim conjE) simp
    moreover have "\<forall>y \<in> N. y \<notin> set (ordered_ids @ []) \<longrightarrow> \<not> set (D y) \<subseteq> set (ordered_ids @ [])"
      using av True by auto
    ultimately show ?thesis using dist oN by (intro exI[of _ "[]"]) simp
  next
    case False
    have "\<forall>x \<in> set available. \<exists>v. score_of sb x = Inr v"
      using av "1.prems"(2) score_of_key[of _ sb] by blast
    from max_by_spec[OF False this] obtain best bv where
      mb: "max_by (score_of sb) available = Inr best" and bmem: "best \<in> set available"
      and bkey: "score_of sb best = Inr bv"
      and bmax: "\<forall>y \<in> set available. \<forall>w. score_of sb y = Inr w \<longrightarrow> w \<le> bv"
      by blast
    from kahn_step[OF inv bmem] obtain indegree' added where
      r: "release (graph_get adj best) indegree (remove1 best available)
            = Inr (indegree', remove1 best available @ added)"
      and inv': "kahn_inv N D adj indegree' (remove1 best available @ added) (ordered_ids @ [best])"
      by blast
    from "1.IH"[OF False mb r refl inv' "1.prems"(2)] obtain suf where
      k: "kahn sb adj indegree' (remove1 best available @ added) (ordered_ids @ [best])
            = Inr ((ordered_ids @ [best]) @ suf)"
      and d: "distinct ((ordered_ids @ [best]) @ suf)"
      and s: "set ((ordered_ids @ [best]) @ suf) \<subseteq> N"
      and t: "kahn_trace N D (score_of sb) (length (ordered_ids @ [best])) ((ordered_ids @ [best]) @ suf)"
      and f: "\<forall>y \<in> N. y \<notin> set ((ordered_ids @ [best]) @ suf)
                \<longrightarrow> \<not> set (D y) \<subseteq> set ((ordered_ids @ [best]) @ suf)"
      by blast
    let ?E = "ordered_ids @ best # suf"
    have E: "(ordered_ids @ [best]) @ suf = ?E" by simp
    have 1: "kahn sb adj indegree available ordered_ids = Inr ?E"
      using False mb r k by simp
    have 2: "kahn_trace N D (score_of sb) (length ordered_ids) ?E"
      unfolding kahn_trace_def
    proof (intro allI impI)
      fix j assume j: "length ordered_ids \<le> j \<and> j < length ?E"
      show "set (D (?E ! j)) \<subseteq> set (take j ?E)
          \<and> (\<forall>y \<in> N. y \<notin> set (take j ?E) \<and> set (D y) \<subseteq> set (take j ?E) \<longrightarrow>
               (\<forall>v w. score_of sb y = Inr v \<longrightarrow> score_of sb (?E ! j) = Inr w \<longrightarrow> v \<le> w))"
      proof (cases "j = length ordered_ids")
        case True
        then have e: "?E ! j = best" "take j ?E = ordered_ids" by simp_all
        from bmem av have "set (D best) \<subseteq> set ordered_ids" by auto
        moreover have "\<forall>y \<in> N. y \<notin> set ordered_ids \<and> set (D y) \<subseteq> set ordered_ids \<longrightarrow>
               (\<forall>v w. score_of sb y = Inr v \<longrightarrow> score_of sb best = Inr w \<longrightarrow> v \<le> w)"
          using av bmax bkey by auto
        ultimately show ?thesis unfolding e by simp
      next
        case False
        with j have "length (ordered_ids @ [best]) \<le> j \<and> j < length ((ordered_ids @ [best]) @ suf)"
          by simp
        with t show ?thesis unfolding kahn_trace_def E by blast
      qed
    qed
    from 1 2 d s f show ?thesis unfolding E by (intro exI[of _ "best # suf"]) simp
  qed
qed

section \<open>Sorting by descending score\<close>

lemma score_of_the_score: "k \<in> fst ` set sb \<Longrightarrow> score_of sb k = Inr (the_score sb k)"
  by (auto simp: score_of_def the_score_def key_iff_map_of split: option.splits)

lemma map_err_map: "\<forall>x \<in> set xs. f x = Inr (g x) \<Longrightarrow> map_err f xs = Inr (map g xs)"
  by (induction xs) auto

lemma insort_key_map:
  "insort_key f (g x) (map g ys) = map g (insort_key (\<lambda>x. f (g x)) x ys)"
  by (induction ys) auto

lemma sort_key_map: "sort_key f (map g xs) = map g (sort_key (\<lambda>x. f (g x)) xs)"
  by (induction xs) (auto simp: insort_key_map)

lemma sort_by_score_desc_spec:
  assumes "set tids \<subseteq> fst ` set sb"
  shows "sort_by_score_desc sb tids = Inr (sort_key (\<lambda>x. - the_score sb x) tids)"
proof -
  have "map_err (score_of sb) tids = Inr (map (the_score sb) tids)"
    using assms score_of_the_score[of _ sb] by (intro map_err_map) blast
  moreover have "zip tids (map (the_score sb) tids) = map (\<lambda>x. (x, the_score sb x)) tids"
    by (induction tids) auto
  moreover have "map fst (sort_key (\<lambda>p. - snd p) (map (\<lambda>x. (x, the_score sb x)) tids))
      = sort_key (\<lambda>x. - the_score sb x) tids"
    by (simp add: sort_key_map comp_def)
  ultimately show ?thesis by (simp add: sort_by_score_desc_def)
qed

lemma lookup_task_key:
  "k \<in> fst ` set sb \<Longrightarrow> lookup_task sb k = Inr (the (map_of sb k))"
  by (auto simp: lookup_task_def key_iff_map_of split: option.splits)

section \<open>What the ordering phase returns\<close>

lemma order_tasks_spec:
  fixes scored :: "'k scored_task list" and cycles :: "'k pykey set"
    and tb :: "('k pykey \<times> 'k task) list"
  defines "sb \<equiv> build_by_id (\<lambda>s. task_id (orig s)) scored"
  defines "N \<equiv> orderable sb cycles"
  defines "D \<equiv> orderable_deps tb N"
  shows "\<exists>E L C.
           order_tasks tb cycles scored = Inr (map (\<lambda>k. the (map_of sb k)) (E @ L @ C))
         \<and> distinct E \<and> set E \<subseteq> N
         \<and> kahn_trace N D (score_of sb) 0 E
         \<and> (\<forall>y \<in> N. y \<notin> set E \<longrightarrow> \<not> set (D y) \<subseteq> set E)
         \<and> L = sort_key (\<lambda>x. - the_score sb x)
                 (filter (\<lambda>tid. tid \<notin> set E) (filter (\<lambda>tid. tid \<notin> cycles) (map fst sb)))
         \<and> C = sort_key (\<lambda>x. - the_score sb x) (filter (\<lambda>tid. tid \<in> cycles) (map fst sb))"
proof -
  let ?ncs = "filter (\<lambda>tid. tid \<notin> cycles) (map fst sb)"
  let ?cs = "filter (\<lambda>tid. tid \<in> cycles) (map fst sb)"
  let ?i0 = "map (\<lambda>tid. (tid, 0::int)) ?ncs"
  let ?a0 = "map (\<lambda>tid. (tid, [])) ?ncs :: 'k adjacency"
  have dk: "distinct (map fst sb)" unfolding sb_def by (rule build_by_id_distinct)
  have setncs: "set ?ncs = N" by (auto simp: N_def orderable_def)
  have k0: "fst ` set ?i0 = N" using setncs by (simp add: image_image)
  have "set ?ncs \<subseteq> fst ` set ?i0" using k0 setncs by simp
  moreover have dn: "distinct ?ncs" using dk by simp
  ultimately obtain indegree adj where
    bg: "build_graph tb ?ncs (?i0, ?a0) = Inr (indegree, adj)"
    and ki: "fst ` set indegree = fst ` set ?i0"
    and mi: "\<forall>x. map_of indegree x =
               (if x \<in> set ?ncs
                then map_option
                       (\<lambda>n. n + int (length (filter (\<lambda>d. d \<in> fst ` set ?i0) (deps_of tb x))))
                       (map_of ?i0 x)
                else map_of ?i0 x)"
    and ca: "\<forall>d x. count_list (graph_get adj d) x = count_list (graph_get ?a0 d) x
               + (if x \<in> set ?ncs
                  then count_list (filter (\<lambda>d. d \<in> fst ` set ?i0) (deps_of tb x)) d else 0)"
    and sa: "\<forall>d. set (graph_get adj d) \<subseteq> set (graph_get ?a0 d) \<union> set ?ncs"
    using build_graph_spec[of ?ncs ?i0 tb ?a0] by blast
  have i0: "\<And>x. x \<in> N \<Longrightarrow> map_of ?i0 x = Some 0"
    using setncs by (simp only: map_of_init) simp
  have ind: "\<forall>x \<in> N. map_of indegree x = Some (int (length (D x)))"
  proof
    fix x assume x: "x \<in> N"
    then have "x \<in> set ?ncs" using setncs by simp
    with mi have "map_of indegree x = map_option
        (\<lambda>n. n + int (length (filter (\<lambda>d. d \<in> fst ` set ?i0) (deps_of tb x)))) (map_of ?i0 x)"
      by simp
    also have "\<dots> = Some (int (length (filter (\<lambda>d. d \<in> N) (deps_of tb x))))"
      unfolding k0 i0[OF x] by simp
    finally show "map_of indegree x = Some (int (length (D x)))"
      by (simp add: D_def orderable_deps_def)
  qed
  have cnt: "\<forall>x \<in> N. \<forall>d. count_list (graph_get adj d) x = count_list (D x) d"
  proof (intro ballI allI)
    fix x d assume x: "x \<in> N"
    then have "x \<in> set ?ncs" using setncs by simp
    with ca have "count_list (graph_get adj d) x = count_list (graph_get ?a0 d) x
        + count_list (filter (\<lambda>d. d \<in> fst ` set ?i0) (deps_of tb x)) d"
      by simp
    then show "count_list (graph_get adj d) x = count_list (D x) d"
      unfolding k0 graph_get_init by (simp add: D_def orderable_deps_def)
  qed
  have adjN: "\<forall>d. set (graph_get adj d) \<subseteq> N"
  proof
    fix d
    from sa have "set (graph_get adj d) \<subseteq> set (graph_get ?a0 d) \<union> set ?ncs" by blast
    then show "set (graph_get adj d) \<subseteq> N" unfolding graph_get_init setncs by simp
  qed
  let ?avail = "filter (\<lambda>tid. (case map_of indegree tid of None \<Rightarrow> 0 | Some n \<Rightarrow> n) = 0) ?ncs"
  have "\<And>x. x \<in> N \<Longrightarrow>
      ((case map_of indegree x of None \<Rightarrow> 0 | Some n \<Rightarrow> n) = 0) = (D x = [])"
    using ind by simp
  then have "{x \<in> N. (case map_of indegree x of None \<Rightarrow> 0 | Some n \<Rightarrow> n) = 0}
      = {x \<in> N. x \<notin> set [] \<and> set (D x) \<subseteq> set []}"
    by auto
  moreover have "set ?avail = {x \<in> set ?ncs. (case map_of indegree x of None \<Rightarrow> 0 | Some n \<Rightarrow> n) = 0}"
    by (rule set_filter)
  ultimately have av: "set ?avail = {x \<in> N. x \<notin> set [] \<and> set (D x) \<subseteq> set []}"
    unfolding setncs by simp
  have inv: "kahn_inv N D adj indegree ?avail []"
    unfolding kahn_inv_def
  proof (intro conjI)
    show "fst ` set indegree = N" using ki k0 by simp
    show "\<forall>d. set (graph_get adj d) \<subseteq> N" by (rule adjN)
    show "\<forall>x \<in> N. \<forall>d. count_list (graph_get adj d) x = count_list (D x) d" by (rule cnt)
    show "set [] \<subseteq> N" by simp
    show "distinct ([] @ ?avail)" using distinct_filter[OF dn] by (simp only: append_Nil)
    show "\<forall>x \<in> N. map_of indegree x = Some (int (length (filter (\<lambda>d. d \<notin> set []) (D x))))"
      using ind by simp
    show "set ?avail = {x \<in> N. x \<notin> set [] \<and> set (D x) \<subseteq> set []}" by (rule av)
    show "\<forall>x \<in> set []. set (D x) \<subseteq> set []" by simp
  qed
  have Nsb: "N \<subseteq> fst ` set sb" by (auto simp: N_def orderable_def)
  from kahn_spec[OF inv Nsb] obtain E where
    k: "kahn sb adj indegree ?avail [] = Inr E"
    and dE: "distinct E" and sE: "set E \<subseteq> N"
    and tr: "kahn_trace N D (score_of sb) 0 E"
    and fin: "\<forall>y \<in> N. y \<notin> set E \<longrightarrow> \<not> set (D y) \<subseteq> set E"
    by auto
  let ?L = "sort_key (\<lambda>x. - the_score sb x) (filter (\<lambda>tid. tid \<notin> set E) ?ncs)"
  let ?C = "sort_key (\<lambda>x. - the_score sb x) ?cs"
  have sl: "sort_by_score_desc sb (filter (\<lambda>tid. tid \<notin> set E) ?ncs) = Inr ?L"
    by (rule sort_by_score_desc_spec) auto
  have sc: "sort_by_score_desc sb ?cs = Inr ?C"
    by (rule sort_by_score_desc_spec) auto
  have "set (E @ ?L @ ?C) \<subseteq> fst ` set sb" using sE Nsb by auto
  then have lk: "map_err (lookup_task sb) (E @ ?L @ ?C)
      = Inr (map (\<lambda>k. the (map_of sb k)) (E @ ?L @ ?C))"
    using lookup_task_key[of _ sb] by (intro map_err_map) blast
  have "order_tasks tb cycles scored = Inr (map (\<lambda>k. the (map_of sb k)) (E @ ?L @ ?C))"
    unfolding order_tasks_def Let_def
    using bg k sl sc lk by (simp add: sb_def)
  with dE sE tr fin show ?thesis by blast
qed

section \<open>The output as a permutation of the dictionary of scored tasks\<close>

lemma mset_filter_partition:
  "mset (filter P xs) + mset (filter (\<lambda>x. \<not> P x) xs) = mset xs"
  by (induction xs) auto

lemma mset_distinct_subset_split:
  assumes "distinct E" and "set E \<subseteq> set xs" and "distinct xs"
  shows "mset E + mset (filter (\<lambda>x. x \<notin> set E) xs) = mset xs"
proof -
  have "mset E = mset (filter (\<lambda>x. x \<in> set E) xs)"
    using assms by (intro iffD1[OF set_eq_iff_mset_eq_distinct]) auto
  then show ?thesis using mset_filter_partition[of "\<lambda>x. x \<in> set E" xs] by simp
qed

lemma mset_values_of_keys:
  "distinct (map fst sb) \<Longrightarrow> map (\<lambda>k. the (map_of sb k)) (map fst sb) = map snd sb"
  by (induction sb) (auto simp: rev_image_eqI)

lemma order_tasks_mset:
  fixes scored :: "'k scored_task list"
  shows "\<exists>out. order_tasks tb cycles scored = Inr out
      \<and> mset out = mset (map snd (build_by_id (\<lambda>s. task_id (orig s)) scored))"
proof -
  let ?sb = "build_by_id (\<lambda>s. task_id (orig s)) scored"
  let ?ncs = "filter (\<lambda>tid. tid \<notin> cycles) (map fst ?sb)"
  let ?cs = "filter (\<lambda>tid. tid \<in> cycles) (map fst ?sb)"
  from order_tasks_spec[of tb cycles scored] obtain E L C where
    o: "order_tasks tb cycles scored = Inr (map (\<lambda>k. the (map_of ?sb k)) (E @ L @ C))"
    and dE: "distinct E" and sE: "set E \<subseteq> orderable ?sb cycles"
    and L: "L = sort_key (\<lambda>x. - the_score ?sb x) (filter (\<lambda>tid. tid \<notin> set E) ?ncs)"
    and C: "C = sort_key (\<lambda>x. - the_score ?sb x) ?cs"
    by blast
  have dk: "distinct (map fst ?sb)" by (rule build_by_id_distinct)
  have "set E \<subseteq> set ?ncs" using sE by (auto simp: orderable_def)
  moreover have "distinct ?ncs" using dk by simp
  ultimately have "mset E + mset (filter (\<lambda>x. x \<notin> set E) ?ncs) = mset ?ncs"
    using dE by (intro mset_distinct_subset_split)
  moreover have "mset ?cs + mset ?ncs = mset (map fst ?sb)"
    using mset_filter_partition[of "\<lambda>tid. tid \<in> cycles" "map fst ?sb"] by simp
  moreover have "mset L = mset (filter (\<lambda>x. x \<notin> set E) ?ncs)" "mset C = mset ?cs"
    unfolding L C by (rule mset_sort)+
  ultimately have "mset (E @ L @ C) = mset (map fst ?sb)"
    by (simp only: mset_append add.assoc[symmetric]) (simp only: add.commute)
  then have "image_mset (\<lambda>k. the (map_of ?sb k)) (mset (E @ L @ C))
      = image_mset (\<lambda>k. the (map_of ?sb k)) (mset (map fst ?sb))"
    by (rule arg_cong)
  then have "mset (map (\<lambda>k. the (map_of ?sb k)) (E @ L @ C))
      = mset (map (\<lambda>k. the (map_of ?sb k)) (map fst ?sb))"
    by (simp only: mset_map)
  also have "\<dots> = mset (map snd ?sb)" using dk by (simp only: mset_values_of_keys)
  finally show ?thesis using o by blast
qed

lemma normalize_importance_error: "normalize_importance py v = Inl e \<Longrightarrow> e = OverflowError"
  by (auto simp: normalize_importance_def py_int_def Let_def
      split: sum.splits pyval.splits pyfloat.splits)

lemma compute_effort_error: "compute_effort_score py v = Inl e \<Longrightarrow> e = OverflowError"
  by (auto simp: compute_effort_score_def py_float_def
      split: sum.splits option.splits pyval.splits if_splits)

lemma score_task_error:
  "score_task py w db cycles t = Inl e \<Longrightarrow>
     e = OverflowError \<and> (normalize_importance py (importance t) = Inl OverflowError
        \<or> compute_effort_score py (estimated_hours t) = Inl OverflowError)"
  by (auto simp: score_task_def Let_def split: sum.splits
      dest: normalize_importance_error compute_effort_error)

lemma scored_orig:
  "map_err (score_task py w db cycles) tasks = Inr scored \<Longrightarrow> map orig scored = tasks"
proof (induction tasks arbitrary: scored)
  case Nil
  then show ?case by simp
next
  case (Cons t ts)
  then show ?case by (auto split: sum.splits dest: score_task_Inr)
qed

lemma two_tasks_scored:
  "score_tasks demo_lib [mk_task 1 [], mk_task 2 [1]] ''smart_balance''
     = Inr [\<lparr>orig = mk_task 1 [], score = 2/5, explanation = ''Unblocks other tasks''\<rparr>,
            \<lparr>orig = mk_task 2 [1], score = 71/200, explanation = balanced\<rparr>]"
  by code_simp

text \<open>
  Claim C1, as amended. When every task of the input has an identifier and no two tasks share
  one, the list that \<^verbatim>\<open>score_tasks\<close> returns contains exactly one scored task per input
  task, in some order: as many tasks as the input has, none duplicated and none dropped.
\<close>

theorem score_tasks_one_per_task:
  assumes "\<forall>t \<in> set tasks. task_id t \<noteq> None" and "distinct (map task_id tasks)"
    and "score_tasks py tasks strategy = Inr out"
  shows "mset (map orig out) = mset tasks \<and> length out = length tasks"
proof -
  from assms(3) obtain cycles scored where
    m: "map_err (score_task py (weights_for strategy) (compute_dependency_bonus tasks) cycles) tasks
          = Inr scored"
    and o: "order_tasks (build_by_id task_id tasks) cycles scored = Inr out"
    by (auto simp: score_tasks_def Let_def split: sum.splits)
  from scored_orig[OF m] have so: "map orig scored = tasks" .
  let ?idf = "\<lambda>s. task_id (orig s)"
  have mi: "map ?idf scored = map task_id tasks"
    unfolding so[symmetric] by simp
  have "\<forall>s \<in> set scored. ?idf s \<noteq> None"
  proof
    fix s assume "s \<in> set scored"
    then have "orig s \<in> set (map orig scored)" by simp
    with so assms(1) show "?idf s \<noteq> None" by simp
  qed
  moreover have "distinct (map ?idf scored)" using assms(2) mi by simp
  ultimately have "build_by_id ?idf scored = map (\<lambda>s. (the (?idf s), s)) scored"
    by (rule build_by_id_all_distinct)
  then have "map snd (build_by_id ?idf scored) = scored" by (simp add: comp_def)
  with order_tasks_mset[of "build_by_id task_id tasks" cycles scored] o
  have ms: "mset out = mset scored" by simp
  then have "image_mset orig (mset out) = image_mset orig (mset scored)" by (rule arg_cong)
  then have a: "mset (map orig out) = mset tasks" using so by (simp only: mset_map[symmetric])
  from ms have "size (mset out) = size (mset scored)" by (rule arg_cong)
  then have "length out = length (map orig scored)" by (simp only: size_mset length_map)
  then have b: "length out = length tasks" unfolding so .
  from a b show ?thesis by simp
qed

theorem score_tasks_one_per_task_witness:
  "distinct (map task_id [mk_task 1 [], mk_task 2 [1]])
   \<and> score_tasks demo_lib [mk_task 1 [], mk_task 2 [1]] ''smart_balance''
       = Inr [\<lparr>orig = mk_task 1 [], score = 2/5, explanation = ''Unblocks other tasks''\<rparr>,
              \<lparr>orig = mk_task 2 [1], score = 71/200, explanation = balanced\<rparr>]
   \<and> mset (map orig
         [\<lparr>orig = mk_task 1 [], score = 2/5, explanation = ''Unblocks other tasks''\<rparr>,
          \<lparr>orig = mk_task 2 [1], score = 71/200, explanation = balanced\<rparr>])
       = mset [mk_task 1 [], mk_task 2 [1]]"
  using score_tasks_one_per_task[OF _ _ two_tasks_scored] two_tasks_scored
  by (simp add: mk_task_def)

text \<open>
  A task without the key \<^verbatim>\<open>"id"\<close> is scored but is not in the output: two tasks go in,
  one comes out.
\<close>

theorem score_tasks_drops_task_without_id_counterexample:
  "score_tasks demo_lib [no_id_task, mk_task 2 []] ''smart_balance''
     = Inr [\<lparr>orig = mk_task 2 [], score = 71/200, explanation = balanced\<rparr>]
   \<and> length [\<lparr>orig = mk_task 2 [], score = 71/200, explanation = balanced\<rparr>]
       \<noteq> length [no_id_task, mk_task 2 []]"
proof -
  have "score_tasks demo_lib [no_id_task, mk_task 2 []] ''smart_balance''
     = Inr [\<lparr>orig = mk_task 2 [], score = 71/200, explanation = balanced\<rparr>]"
    by code_simp
  then show ?thesis by simp
qed

section \<open>Cycle detection: what is left unmarked is acyclic\<close>

lemma trancl_no_target:
  assumes "(x, y) \<in> r\<^sup>+" and "\<forall>z. (z, a) \<notin> r"
  shows "y \<noteq> a"
  using assms by (induction rule: trancl_induct) auto

lemma trancl_avoid_source:
  assumes "(x, y) \<in> r'\<^sup>+" and "x \<noteq> a" and "\<forall>z. (z, a) \<notin> r'" and "r' \<subseteq> r \<union> {a} \<times> UNIV"
  shows "(x, y) \<in> r\<^sup>+"
  using assms(1)
proof (induction rule: trancl_induct)
  case (base y)
  with assms(2,4) show ?case by auto
next
  case (step y z)
  from step(1) assms(3) have "y \<noteq> a" by (rule trancl_no_target)
  with step(2) assms(4) have "(y, z) \<in> r" by auto
  with step(3) show ?case by (rule trancl_into_trancl)
qed

lemma acyclic_add_source:
  assumes "acyclic r" and "\<forall>z. (z, a) \<notin> r'" and "r' \<subseteq> r \<union> {a} \<times> UNIV"
  shows "acyclic r'"
  unfolding acyclic_def
proof (intro allI notI)
  fix x assume c: "(x, x) \<in> r'\<^sup>+"
  from c assms(2) have "x \<noteq> a" by (rule trancl_no_target)
  from trancl_avoid_source[OF c this assms(2,3)] assms(1) show False
    by (simp add: acyclic_def)
qed

lemma dfs_inv_gray:
  assumes "dfs_inv g st" and "visited st node = None"
  shows "dfs_inv g (st\<lparr>visited := (visited st)(node \<mapsto> Gray)\<rparr>)"
proof -
  let ?st = "st\<lparr>visited := (visited st)(node \<mapsto> Gray)\<rparr>"
  have c: "clean ?st = clean st" using assms(2) by (auto simp: clean_def)
  have "\<forall>x \<in> clean st. \<forall>w \<in> set (graph_get g x). visited ?st w = Some Black"
    using assms by (auto simp: dfs_inv_def)
  with assms(1) show ?thesis unfolding dfs_inv_def c by simp
qed

lemma dfs_inv_mark:
  assumes "dfs_inv g st" and "A \<subseteq> grays st"
  shows "dfs_inv g (st\<lparr>in_cycle := in_cycle st \<union> A\<rparr>)"
proof -
  let ?st = "st\<lparr>in_cycle := in_cycle st \<union> A\<rparr>"
  have c: "clean ?st = clean st" using assms(2) by (auto simp: clean_def grays_def)
  from assms(1) show ?thesis unfolding dfs_inv_def c by simp
qed

lemma dfs_inv_black:
  assumes inv: "dfs_inv g st" and gray: "visited st node = Some Gray"
    and deps: "\<forall>d \<in> set (graph_get g node). visited st d = Some Black \<or> node \<in> in_cycle st"
  shows "dfs_inv g (st\<lparr>visited := (visited st)(node \<mapsto> Black)\<rparr>)"
proof -
  let ?st = "st\<lparr>visited := (visited st)(node \<mapsto> Black)\<rparr>"
  from inv have I1: "\<forall>x \<in> clean st. \<forall>w \<in> set (graph_get g x). visited st w = Some Black"
    and I2: "acyclic (edges g \<inter> (clean st \<times> clean st))"
    by (auto simp: dfs_inv_def)
  show ?thesis
  proof (cases "node \<in> in_cycle st")
    case True
    then have c: "clean ?st = clean st" using gray by (auto simp: clean_def)
    have "\<forall>x \<in> clean st. \<forall>w \<in> set (graph_get g x). visited ?st w = Some Black"
      using I1 by auto
    with I2 show ?thesis unfolding dfs_inv_def c by simp
  next
    case False
    then have c: "clean ?st = insert node (clean st)" using gray by (auto simp: clean_def)
    from False deps have nd: "\<forall>d \<in> set (graph_get g node). visited st d = Some Black" by auto
    have J1: "\<forall>x \<in> insert node (clean st). \<forall>w \<in> set (graph_get g x). visited ?st w = Some Black"
      using I1 nd by auto
    have noin: "\<forall>z. (z, node) \<notin> edges g \<inter> (insert node (clean st) \<times> insert node (clean st))"
    proof (intro allI notI)
      fix z assume "(z, node) \<in> edges g \<inter> (insert node (clean st) \<times> insert node (clean st))"
      then have e: "node \<in> set (graph_get g z)" and z: "z = node \<or> z \<in> clean st"
        by (auto simp: edges_def)
      from z e I1 nd have "visited st node = Some Black" by auto
      with gray show False by simp
    qed
    have sub: "edges g \<inter> (insert node (clean st) \<times> insert node (clean st))
        \<subseteq> (edges g \<inter> (clean st \<times> clean st)) \<union> {node} \<times> UNIV"
      using noin by auto
    from acyclic_add_source[OF I2 noin sub] J1 show ?thesis unfolding dfs_inv_def c by simp
  qed
qed

lemma dfs_complete:
  "dfs_inv g st \<Longrightarrow> grays st = set stack \<Longrightarrow> visited st node = None \<Longrightarrow>
     \<exists>st'. dfs g node stack st = Inr st' \<and> dfs_inv g st' \<and> grays st' = grays st
         \<and> visited st' node = Some Black
         \<and> (\<forall>x. visited st x \<noteq> None \<longrightarrow> visited st' x = visited st x)
         \<and> in_cycle st \<subseteq> in_cycle st'"
  "dfs_inv g st \<Longrightarrow> grays st = set stack \<Longrightarrow>
     \<exists>st'. dfs_deps g ds stack st = Inr st' \<and> dfs_inv g st' \<and> grays st' = grays st
         \<and> (\<forall>x. visited st x \<noteq> None \<longrightarrow> visited st' x = visited st x)
         \<and> in_cycle st \<subseteq> in_cycle st'
         \<and> (\<forall>d \<in> set ds. visited st' d = Some Black \<or> (stack \<noteq> [] \<and> last stack \<in> in_cycle st'))"
proof (induct g node stack st and g ds stack st rule: dfs_dfs_deps.induct)
  case (1 g node stack st)
  let ?st1 = "st\<lparr>visited := (visited st)(node \<mapsto> Gray)\<rparr>"
  have inv1: "dfs_inv g ?st1" using "1.prems"(1,3) by (rule dfs_inv_gray)
  have g1: "grays ?st1 = set (stack @ [node])" using "1.prems"(2) by (auto simp: grays_def)
  from "1.hyps"[OF inv1 g1] obtain st2 where
    r: "dfs_deps g (graph_get g node) (stack @ [node]) ?st1 = Inr st2"
    and inv2: "dfs_inv g st2" and g2: "grays st2 = grays ?st1"
    and p2: "\<forall>x. visited ?st1 x \<noteq> None \<longrightarrow> visited st2 x = visited ?st1 x"
    and c2: "in_cycle ?st1 \<subseteq> in_cycle st2"
    and d2: "\<forall>d \<in> set (graph_get g node).
               visited st2 d = Some Black \<or> (stack @ [node] \<noteq> [] \<and> last (stack @ [node]) \<in> in_cycle st2)"
    by blast
  let ?st' = "st2\<lparr>visited := (visited st2)(node \<mapsto> Black)\<rparr>"
  from p2 have ngray: "visited st2 node = Some Gray" by simp
  from d2 have "\<forall>d \<in> set (graph_get g node). visited st2 d = Some Black \<or> node \<in> in_cycle st2"
    by simp
  with inv2 ngray have inv': "dfs_inv g ?st'" by (rule dfs_inv_black)
  have nst: "node \<notin> set stack"
  proof
    assume "node \<in> set stack"
    with "1.prems"(2) have "node \<in> grays st" by simp
    with "1.prems"(3) show False by (simp add: grays_def)
  qed
  have g': "grays ?st' = grays st"
    using g2 g1 "1.prems"(2) nst by (auto simp: grays_def split: if_splits)
  have p': "\<forall>x. visited st x \<noteq> None \<longrightarrow> visited ?st' x = visited st x"
    using p2 "1.prems"(3) by auto
  have c': "in_cycle st \<subseteq> in_cycle ?st'" using c2 by simp
  have "dfs g node stack st = Inr ?st'" using r by simp
  with inv' g' p' c' show ?case by simp
next
  case (2 g stack st)
  then show ?case by simp
next
  case (3 g dep ds stack st)
  show ?case
  proof (cases "visited st dep")
    case None
    from "3.hyps"(1)[OF None "3.prems" None] obtain st1 where
      r1: "dfs g dep stack st = Inr st1" and inv1: "dfs_inv g st1"
      and g1: "grays st1 = grays st" and b1: "visited st1 dep = Some Black"
      and p1: "\<forall>x. visited st x \<noteq> None \<longrightarrow> visited st1 x = visited st x"
      and c1: "in_cycle st \<subseteq> in_cycle st1"
      by blast
    from g1 "3.prems"(2) have gs: "grays st1 = set stack" by simp
    from "3.hyps"(2)[OF None r1 inv1 gs] obtain st2 where
      r2: "dfs_deps g ds stack st1 = Inr st2" and inv2: "dfs_inv g st2"
      and g2: "grays st2 = grays st1"
      and p2: "\<forall>x. visited st1 x \<noteq> None \<longrightarrow> visited st2 x = visited st1 x"
      and c2: "in_cycle st1 \<subseteq> in_cycle st2"
      and d2: "\<forall>d \<in> set ds. visited st2 d = Some Black \<or> (stack \<noteq> [] \<and> last stack \<in> in_cycle st2)"
      by blast
    have r: "dfs_deps g (dep # ds) stack st = Inr st2" using None r1 r2 by simp
    have p: "\<forall>x. visited st x \<noteq> None \<longrightarrow> visited st2 x = visited st x"
      using p1 p2 by (metis option.distinct(1))
    have bd: "visited st2 dep = Some Black" using b1 p2 by simp
    from r inv2 g2 g1 p c1 c2 d2 bd show ?thesis by auto
  next
    case (Some c)
    show ?thesis
    proof (cases c)
      case Gray
      with Some "3.prems"(2) have mem: "dep \<in> set stack" by (auto simp: grays_def)
      then obtain idx where i: "index_of stack dep = Some idx"
        using index_of_Some_iff by metis
      let ?st1 = "st\<lparr>in_cycle := in_cycle st \<union> set (drop idx stack)\<rparr>"
      have "set (drop idx stack) \<subseteq> grays st"
        using "3.prems"(2) set_drop_subset[of idx stack] by simp
      with "3.prems"(1) have inv1: "dfs_inv g ?st1" by (rule dfs_inv_mark)
      have gs: "grays ?st1 = set stack" using "3.prems"(2) by (simp add: grays_def)
      from "3.hyps"(3)[OF Some Gray i inv1 gs] obtain st2 where
        r2: "dfs_deps g ds stack ?st1 = Inr st2" and inv2: "dfs_inv g st2"
        and g2: "grays st2 = grays ?st1"
        and p2: "\<forall>x. visited ?st1 x \<noteq> None \<longrightarrow> visited st2 x = visited ?st1 x"
        and c2: "in_cycle ?st1 \<subseteq> in_cycle st2"
        and d2: "\<forall>d \<in> set ds. visited st2 d = Some Black \<or> (stack \<noteq> [] \<and> last stack \<in> in_cycle st2)"
        by blast
      have r: "dfs_deps g (dep # ds) stack st = Inr st2" using Some Gray i r2 by simp
      from mem have ne: "stack \<noteq> []" by auto
      from i have "idx < length stack"
        by (induction stack arbitrary: idx) (auto split: if_splits)
      with ne have "last stack \<in> set (drop idx stack)"
        by (metis drop_eq_Nil last_drop last_in_set leD)
      with c2 have "last stack \<in> in_cycle st2" by auto
      with r inv2 g2 p2 c2 d2 ne gs "3.prems"(2) show ?thesis
        by (intro exI[of _ st2]) (auto simp: grays_def)
    next
      case Black
      from "3.hyps"(4)[OF Some Black "3.prems"] obtain st2 where
        r2: "dfs_deps g ds stack st = Inr st2" and inv2: "dfs_inv g st2"
        and g2: "grays st2 = grays st"
        and p2: "\<forall>x. visited st x \<noteq> None \<longrightarrow> visited st2 x = visited st x"
        and c2: "in_cycle st \<subseteq> in_cycle st2"
        and d2: "\<forall>d \<in> set ds. visited st2 d = Some Black \<or> (stack \<noteq> [] \<and> last stack \<in> in_cycle st2)"
        by blast
      have r: "dfs_deps g (dep # ds) stack st = Inr st2" using Some Black r2 by simp
      have "visited st2 dep = Some Black" using p2 Some Black by simp
      with r inv2 g2 p2 c2 d2 show ?thesis by auto
    qed
  qed
qed

lemma dfs_roots_complete:
  "dfs_inv g st \<Longrightarrow> grays st = {} \<Longrightarrow>
     \<exists>st'. dfs_roots g ns st = Inr st' \<and> dfs_inv g st' \<and> grays st' = {}
         \<and> (\<forall>x. visited st x \<noteq> None \<longrightarrow> visited st' x = visited st x)
         \<and> (\<forall>n \<in> set ns. visited st' n \<noteq> None)"
proof (induction ns arbitrary: st)
  case Nil
  then show ?case by simp
next
  case (Cons n ns)
  show ?case
  proof (cases "visited st n = None")
    case True
    from Cons.prems(2) have "grays st = set []" by simp
    from dfs_complete(1)[OF Cons.prems(1) this True] obtain st1 where
      r1: "dfs g n [] st = Inr st1" and inv1: "dfs_inv g st1" and g1: "grays st1 = grays st"
      and b1: "visited st1 n = Some Black"
      and p1: "\<forall>x. visited st x \<noteq> None \<longrightarrow> visited st1 x = visited st x"
      by blast
    from g1 Cons.prems(2) have "grays st1 = {}" by simp
    from Cons.IH[OF inv1 this] obtain st2 where
      r2: "dfs_roots g ns st1 = Inr st2" and inv2: "dfs_inv g st2" and g2: "grays st2 = {}"
      and p2: "\<forall>x. visited st1 x \<noteq> None \<longrightarrow> visited st2 x = visited st1 x"
      and v2: "\<forall>n \<in> set ns. visited st2 n \<noteq> None"
      by blast
    have "dfs_roots g (n # ns) st = Inr st2" using True r1 r2 by simp
    moreover have "\<forall>x. visited st x \<noteq> None \<longrightarrow> visited st2 x = visited st x"
      using p1 p2 by (metis option.distinct(1))
    moreover have "visited st2 n \<noteq> None" using b1 p2 by simp
    ultimately show ?thesis using inv2 g2 v2 by auto
  next
    case False
    from Cons.IH[OF Cons.prems] obtain st2 where
      r2: "dfs_roots g ns st = Inr st2" and inv2: "dfs_inv g st2" and g2: "grays st2 = {}"
      and p2: "\<forall>x. visited st x \<noteq> None \<longrightarrow> visited st2 x = visited st x"
      and v2: "\<forall>n \<in> set ns. visited st2 n \<noteq> None"
      by blast
    have "dfs_roots g (n # ns) st = Inr st2" using False r2 by auto
    moreover have "visited st2 n \<noteq> None" using p2 False by auto
    ultimately show ?thesis using inv2 g2 p2 v2 by auto
  qed
qed

lemma graph_get_graph_of: "graph_get (graph_of tb) x = deps_of tb x"
  by (induction tb) (auto simp: graph_get_def graph_of_def deps_of_def)

lemma keys_graph_of: "map fst (graph_of tb) = map fst tb"
  by (simp add: graph_of_def case_prod_beta comp_def)

text \<open>Every cycle of the dependency graph goes through a node of the cycle set.\<close>

lemma detect_cycles_acyclic:
  assumes "detect_cycles tb = Inr cycles"
  shows "acyclic {(x, w). x \<in> fst ` set tb \<and> x \<notin> cycles \<and> w \<in> fst ` set tb \<and> w \<notin> cycles
                    \<and> w \<in> set (deps_of tb x)}"
proof -
  let ?g = "graph_of tb"
  let ?s0 = "\<lparr>visited = Map.empty, in_cycle = {}\<rparr> :: 'a dfs_state"
  have i0: "dfs_inv ?g ?s0" by (simp add: dfs_inv_def clean_def acyclic_def)
  have g0: "grays ?s0 = {}" by (simp add: grays_def)
  from dfs_roots_complete[OF i0 g0, of "map fst ?g"] obtain st where
    r: "dfs_roots ?g (map fst ?g) ?s0 = Inr st" and inv: "dfs_inv ?g st" and g: "grays st = {}"
    and v: "\<forall>n \<in> set (map fst ?g). visited st n \<noteq> None"
    by blast
  from assms r have c: "cycles = in_cycle st" by (simp add: detect_cycles_def Let_def)
  have black: "\<And>x. x \<in> fst ` set tb \<Longrightarrow> visited st x = Some Black"
  proof -
    fix x assume "x \<in> fst ` set tb"
    then have "x \<in> set (map fst ?g)" by (simp add: keys_graph_of)
    with v obtain col where col: "visited st x = Some col" by auto
    with g show "visited st x = Some Black" by (cases col) (auto simp: grays_def)
  qed
  have "{(x, w). x \<in> fst ` set tb \<and> x \<notin> cycles \<and> w \<in> fst ` set tb \<and> w \<notin> cycles
                    \<and> w \<in> set (deps_of tb x)}
      \<subseteq> edges ?g \<inter> (clean st \<times> clean st)"
    using black c by (auto simp: edges_def clean_def graph_get_graph_of)
  moreover from inv have "acyclic (edges ?g \<inter> (clean st \<times> clean st))" by (simp add: dfs_inv_def)
  ultimately show ?thesis by (rule acyclic_subset[rotated])
qed

text \<open>
  Hence the selection loop leaves no orderable task behind: a task that is not emitted has an
  orderable dependency that is not emitted either, and so on for ever.
\<close>

lemma no_leftover:
  assumes ac: "acyclic {(x, w). x \<in> N \<and> w \<in> N \<and> w \<in> set (deps x)}"
    and fin: "finite N" and sub: "E \<subseteq> N"
    and stuck: "\<forall>y \<in> N. y \<notin> E \<longrightarrow> \<not> set (filter (\<lambda>d. d \<in> N) (deps y)) \<subseteq> E"
  shows "E = N"
proof (rule ccontr)
  assume "E \<noteq> N"
  with sub obtain z0 where z0: "z0 \<in> N - E" by auto
  define r where "r = {(w, x). x \<in> N - E \<and> w \<in> N - E \<and> w \<in> set (deps x)}"
  have "r\<inverse> \<subseteq> {(x, w). x \<in> N \<and> w \<in> N \<and> w \<in> set (deps x)}"
    by (auto simp: r_def)
  with ac have "acyclic (r\<inverse>)" by (rule acyclic_subset)
  then have ar: "acyclic r" by (simp only: acyclic_converse)
  have "r \<subseteq> N \<times> N" by (auto simp: r_def)
  moreover have "finite (N \<times> N)" using fin by simp
  ultimately have fr: "finite r" by (rule finite_subset)
  from fr ar have "wf r" by (rule finite_acyclic_wf)
  from wfE_min[OF this z0] obtain z where z: "z \<in> N - E" and m: "\<And>y. (y, z) \<in> r \<Longrightarrow> y \<notin> N - E"
    by blast
  from z stuck obtain d where "d \<in> set (deps z)" "d \<in> N" "d \<notin> E" by auto
  with z have "(d, z) \<in> r" by (auto simp: r_def)
  from m[OF this] \<open>d \<in> N\<close> \<open>d \<notin> E\<close> show False by simp
qed

section \<open>The order of the output\<close>

lemma sorted_desc_map:
  fixes g :: "'b \<Rightarrow> rat"
  assumes "sorted (map (\<lambda>x. - f x) xs)" and "\<And>x. x \<in> set xs \<Longrightarrow> g (v x) = f x"
  shows "sorted_wrt (\<lambda>a b. g b \<le> g a) (map v xs)"
  using assms
proof (induction xs)
  case Nil
  then show ?case by simp
next
  case (Cons a xs)
  then show ?case by (auto simp: sorted_wrt_map)
qed

lemma map_of_map_snd:
  "map_of (map (\<lambda>p. (fst p, f (snd p))) al) k = map_option f (map_of al k)"
  by (induction al) auto

lemma order_tasks_order:
  fixes scored :: "'k scored_task list"
  assumes o: "order_tasks (build_by_id task_id (map orig scored)) cycles scored = Inr out"
    and c: "detect_cycles (build_by_id task_id (map orig scored)) = Inr cycles"
  shows "\<exists>emitted cyclic.
           out = emitted @ cyclic
         \<and> distinct (map (\<lambda>s. get_id (orig s)) out)
         \<and> ids_of emitted = orderable_ids (map orig scored) cycles
         \<and> ids_of cyclic = cyclic_ids (map orig scored) cycles
         \<and> (\<forall>j < length emitted.
               ready (orderable_ids (map orig scored) cycles) (ids_of (take j emitted)) (emitted ! j)
             \<and> (\<forall>s \<in> set (drop j emitted).
                   ready (orderable_ids (map orig scored) cycles) (ids_of (take j emitted)) s
                   \<longrightarrow> score s \<le> score (emitted ! j)))
         \<and> sorted_wrt (\<lambda>a b. score b \<le> score a) cyclic"
proof -
  let ?tasks = "map orig scored"
  let ?tb = "build_by_id task_id ?tasks"
  let ?sb = "build_by_id (\<lambda>s. task_id (orig s)) scored"
  let ?N = "orderable ?sb cycles"
  let ?D = "orderable_deps ?tb ?N"
  let ?val = "\<lambda>k. the (map_of ?sb k)"
  let ?ncs = "filter (\<lambda>tid. tid \<notin> cycles) (map fst ?sb)"
  let ?cs = "filter (\<lambda>tid. tid \<in> cycles) (map fst ?sb)"
  have tb: "?tb = map (\<lambda>p. (fst p, orig (snd p))) ?sb" by (rule build_by_id_map)
  have keys: "fst ` set ?sb = {k. \<exists>t \<in> set ?tasks. task_id t = Some k}"
    by (auto simp: build_by_id_keys)
  have keys_tb: "fst ` set ?tb = fst ` set ?sb" unfolding tb by (simp add: image_image)
  have dk: "distinct (map fst ?sb)" by (rule build_by_id_distinct)
  have val: "\<And>k. k \<in> fst ` set ?sb \<Longrightarrow> (k, ?val k) \<in> set ?sb"
  proof -
    fix k assume "k \<in> fst ` set ?sb"
    then obtain s where "map_of ?sb k = Some s" by (auto simp: key_iff_map_of)
    then show "(k, ?val k) \<in> set ?sb" by (auto dest: map_of_SomeD)
  qed
  have val_id: "\<And>k. k \<in> fst ` set ?sb \<Longrightarrow> get_id (orig (?val k)) = k"
    using val build_by_id_set[of _ _ "\<lambda>s. task_id (orig s)" scored] by (fastforce simp: get_id_def)
  have val_deps: "\<And>k. k \<in> fst ` set ?sb \<Longrightarrow> deps_of ?tb k = dependencies (orig (?val k))"
  proof -
    fix k assume "k \<in> fst ` set ?sb"
    then obtain s where s: "map_of ?sb k = Some s" by (auto simp: key_iff_map_of)
    have "map_of ?tb k = map_option orig (map_of ?sb k)"
      unfolding tb by (rule map_of_map_snd)
    with s show "deps_of ?tb k = dependencies (orig (?val k))" by (simp add: deps_of_def)
  qed
  have val_score: "\<And>k. k \<in> fst ` set ?sb \<Longrightarrow> score_of ?sb k = Inr (score (?val k))
      \<and> the_score ?sb k = score (?val k)"
    by (auto simp: score_of_def the_score_def key_iff_map_of)
  have N: "?N = orderable_ids ?tasks cycles"
    unfolding orderable_def orderable_ids_def keys by auto
  have Nsub: "?N \<subseteq> fst ` set ?sb" by (auto simp: orderable_def)
  from order_tasks_spec[of ?tb cycles scored] o obtain E L C where
    out: "out = map ?val (E @ L @ C)"
    and dE: "distinct E" and sE: "set E \<subseteq> ?N"
    and tr: "kahn_trace ?N ?D (score_of ?sb) 0 E"
    and stuck: "\<forall>y \<in> ?N. y \<notin> set E \<longrightarrow> \<not> set (?D y) \<subseteq> set E"
    and L: "L = sort_key (\<lambda>x. - the_score ?sb x) (filter (\<lambda>tid. tid \<notin> set E) ?ncs)"
    and C: "C = sort_key (\<lambda>x. - the_score ?sb x) ?cs"
    by auto
  have "{(x, w). x \<in> ?N \<and> w \<in> ?N \<and> w \<in> set (deps_of ?tb x)}
      \<subseteq> {(x, w). x \<in> fst ` set ?tb \<and> x \<notin> cycles \<and> w \<in> fst ` set ?tb \<and> w \<notin> cycles
                    \<and> w \<in> set (deps_of ?tb x)}"
    unfolding keys_tb by (auto simp: orderable_def)
  with detect_cycles_acyclic[OF c]
  have ac: "acyclic {(x, w). x \<in> ?N \<and> w \<in> ?N \<and> w \<in> set (deps_of ?tb x)}"
    by (rule acyclic_subset)
  have fin: "finite ?N" by (rule finite_subset[OF Nsub]) simp
  from stuck have "\<forall>y \<in> ?N. y \<notin> set E \<longrightarrow> \<not> set (filter (\<lambda>d. d \<in> ?N) (deps_of ?tb y)) \<subseteq> set E"
    by (simp add: orderable_deps_def)
  from no_leftover[OF ac fin sE this] have EN: "set E = ?N" .
  have setncs: "set ?ncs = ?N" by (auto simp: orderable_def)
  have "filter (\<lambda>tid. tid \<notin> set E) ?ncs = []"
    unfolding filter_empty_conv using EN setncs by blast
  with L have Lnil: "L = []" by simp
  have setC: "set C = set ?cs" unfolding C by simp
  have dC: "distinct C" unfolding C using dk by simp
  have disj: "set E \<inter> set C = {}" using EN setC by (auto simp: orderable_def)
  have subkeys: "set (E @ C) \<subseteq> fst ` set ?sb" using sE Nsub setC by auto
  have idmap: "map (\<lambda>s. get_id (orig s)) (map ?val (E @ C)) = E @ C"
    using subkeys val_id by (simp add: map_idI subset_iff)
  have ids_val: "\<And>ks. set ks \<subseteq> fst ` set ?sb \<Longrightarrow> ids_of (map ?val ks) = set ks"
  proof -
    fix ks assume a: "set ks \<subseteq> fst ` set ?sb"
    have "ids_of (map ?val ks) = (\<lambda>k. get_id (orig (?val k))) ` set ks"
      by (simp add: ids_of_def image_image)
    also have "\<dots> = set ks" using a val_id by (auto simp: subset_iff image_iff)
    finally show "ids_of (map ?val ks) = set ks" .
  qed
  let ?oe = "map ?val E" and ?oc = "map ?val C"
  have 1: "out = ?oe @ ?oc" using out Lnil by simp
  have 2: "distinct (map (\<lambda>s. get_id (orig s)) out)"
    unfolding 1 map_append[symmetric] idmap using dE dC disj by simp
  have 3: "ids_of ?oe = orderable_ids ?tasks cycles"
    using ids_val[of E] sE Nsub EN N by auto
  have 4: "ids_of ?oc = cyclic_ids ?tasks cycles"
  proof -
    have "set C \<subseteq> fst ` set ?sb" using setC by auto
    from ids_val[OF this] have "ids_of ?oc = set ?cs" using setC by simp
    also have "\<dots> = cyclic_ids ?tasks cycles"
      unfolding cyclic_ids_def using keys by auto
    finally show ?thesis .
  qed
  have 5: "\<forall>j < length ?oe.
               ready (orderable_ids ?tasks cycles) (ids_of (take j ?oe)) (?oe ! j)
             \<and> (\<forall>s \<in> set (drop j ?oe).
                   ready (orderable_ids ?tasks cycles) (ids_of (take j ?oe)) s
                   \<longrightarrow> score s \<le> score (?oe ! j))"
  proof (intro allI impI)
    fix j assume j: "j < length ?oe"
    then have jE: "j < length E" by simp
    then have Ej: "E ! j \<in> set E" by simp
    with sE Nsub have Ejk: "E ! j \<in> fst ` set ?sb" by auto
    have tk: "set (take j E) \<subseteq> fst ` set ?sb" using sE Nsub set_take_subset[of j E] by blast
    have placed: "ids_of (take j ?oe) = set (take j E)"
      using ids_val[OF tk] by (simp add: take_map)
    from tr jE have t1: "set (?D (E ! j)) \<subseteq> set (take j E)"
      and t2: "\<forall>y \<in> ?N. y \<notin> set (take j E) \<and> set (?D y) \<subseteq> set (take j E) \<longrightarrow>
           (\<forall>v w. score_of ?sb y = Inr v \<longrightarrow> score_of ?sb (E ! j) = Inr w \<longrightarrow> v \<le> w)"
      unfolding kahn_trace_def by auto
    have rdy: "\<And>y. y \<in> fst ` set ?sb \<Longrightarrow>
        ready (orderable_ids ?tasks cycles) (set (take j E)) (?val y) \<longleftrightarrow> set (?D y) \<subseteq> set (take j E)"
      unfolding ready_def N[symmetric] orderable_deps_def using val_deps by auto
    have a: "ready (orderable_ids ?tasks cycles) (ids_of (take j ?oe)) (?oe ! j)"
      unfolding placed using jE rdy[OF Ejk] t1 by simp
    have b: "\<forall>s \<in> set (drop j ?oe).
                   ready (orderable_ids ?tasks cycles) (ids_of (take j ?oe)) s
                   \<longrightarrow> score s \<le> score (?oe ! j)"
    proof (intro ballI impI)
      fix s assume s: "s \<in> set (drop j ?oe)"
        and r: "ready (orderable_ids ?tasks cycles) (ids_of (take j ?oe)) s"
      from s obtain y where y: "y \<in> set (drop j E)" and sy: "s = ?val y"
        by (auto simp: drop_map)
      from y have yE: "y \<in> set E" by (rule in_set_dropD)
      with sE Nsub have yN: "y \<in> ?N" and yk: "y \<in> fst ` set ?sb" by auto
      have "distinct (take j E @ drop j E)" using dE by simp
      with y have ynot: "y \<notin> set (take j E)" by (simp only: distinct_append) blast
      from r have "set (?D y) \<subseteq> set (take j E)" unfolding placed sy using rdy[OF yk] by simp
      with t2 yN ynot val_score[OF yk] val_score[OF Ejk]
      have "score (?val y) \<le> score (?val (E ! j))" by blast
      then show "score s \<le> score (?oe ! j)" using sy jE by simp
    qed
    from a b show "ready (orderable_ids ?tasks cycles) (ids_of (take j ?oe)) (?oe ! j)
             \<and> (\<forall>s \<in> set (drop j ?oe).
                   ready (orderable_ids ?tasks cycles) (ids_of (take j ?oe)) s
                   \<longrightarrow> score s \<le> score (?oe ! j))" by simp
  qed
  have 6: "sorted_wrt (\<lambda>a b. score b \<le> score a) ?oc"
  proof (rule sorted_desc_map[where f = "the_score ?sb"])
    show "sorted (map (\<lambda>x. - the_score ?sb x) C)" unfolding C by (rule sorted_sort_key)
    fix x assume "x \<in> set C"
    with setC have "x \<in> fst ` set ?sb" by auto
    from val_score[OF this] show "score (?val x) = the_score ?sb x" by simp
  qed
  from 1 2 3 4 5 6 show ?thesis by blast
qed

lemma mixed_batch_scored:
  "score_tasks demo_lib [far_task 3 [4], urgent_task 2 [1], mk_task 1 [], far_task 4 [3]]
      ''smart_balance''
     = Inr [\<lparr>orig = mk_task 1 [], score = 2/5, explanation = ''Unblocks other tasks''\<rparr>,
            \<lparr>orig = urgent_task 2 [1], score = 39/50,
               explanation = ''Due very soon; Very important; Quick win''\<rparr>,
            far_scored 3 [4], far_scored 4 [3]]"
  by code_simp

lemma mixed_batch_cycles:
  "detect_cycles (build_by_id task_id
      [far_task 3 [4], urgent_task 2 [1], mk_task 1 [], far_task 4 [3]]) = Inr {Key 3, Key 4}"
  by code_simp

text \<open>
  Claim C2. The output of \<^verbatim>\<open>score_tasks\<close> is a list of emitted tasks, then the leftover
  orderable tasks, then the cyclic tasks, with pairwise different identifiers. The emitted and
  leftover tasks are the tasks with an orderable identifier. Each emitted task is ready when it
  is emitted: its orderable dependencies have been emitted before it; and no orderable task
  that is ready at that moment and not yet emitted has a higher score. Leftover and cyclic
  tasks are sorted by descending score. Since what cycle detection leaves unmarked is acyclic,
  there is never a leftover task, so every orderable dependency precedes its dependents in
  the whole output.
\<close>

theorem score_tasks_ordering:
  assumes "score_tasks py tasks strategy = Inr out"
    and "detect_cycles (build_by_id task_id tasks) = Inr cycles"
  shows "\<exists>emitted leftover cyclic.
           out = emitted @ leftover @ cyclic
         \<and> distinct (map (\<lambda>s. get_id (orig s)) out)
         \<and> ids_of (emitted @ leftover) = orderable_ids tasks cycles
         \<and> ids_of cyclic = cyclic_ids tasks cycles
         \<and> (\<forall>j < length emitted.
               ready (orderable_ids tasks cycles) (ids_of (take j emitted)) (emitted ! j)
             \<and> (\<forall>s \<in> set (drop j emitted @ leftover).
                   ready (orderable_ids tasks cycles) (ids_of (take j emitted)) s
                   \<longrightarrow> score s \<le> score (emitted ! j)))
         \<and> sorted_wrt (\<lambda>a b. score b \<le> score a) leftover
         \<and> sorted_wrt (\<lambda>a b. score b \<le> score a) cyclic
         \<and> leftover = []"
proof -
  from assms obtain scored where
    m: "map_err (score_task py (weights_for strategy) (compute_dependency_bonus tasks) cycles) tasks
          = Inr scored"
    and o: "order_tasks (build_by_id task_id tasks) cycles scored = Inr out"
    by (auto simp: score_tasks_def Let_def split: sum.splits)
  from scored_orig[OF m] have so: "map orig scored = tasks" .
  from order_tasks_order[of scored cycles out] o assms(2) obtain emitted cyclic where
    "out = emitted @ cyclic"
    "distinct (map (\<lambda>s. get_id (orig s)) out)"
    "ids_of emitted = orderable_ids tasks cycles"
    "ids_of cyclic = cyclic_ids tasks cycles"
    "\<forall>j < length emitted.
               ready (orderable_ids tasks cycles) (ids_of (take j emitted)) (emitted ! j)
             \<and> (\<forall>s \<in> set (drop j emitted).
                   ready (orderable_ids tasks cycles) (ids_of (take j emitted)) s
                   \<longrightarrow> score s \<le> score (emitted ! j))"
    "sorted_wrt (\<lambda>a b. score b \<le> score a) cyclic"
    unfolding so by blast
  then show ?thesis
    by (intro exI[of _ emitted] exI[of _ "[]"] exI[of _ cyclic]) simp
qed

theorem score_tasks_ordering_witness:
  "score_tasks demo_lib [far_task 3 [4], urgent_task 2 [1], mk_task 1 [], far_task 4 [3]]
      ''smart_balance''
     = Inr [\<lparr>orig = mk_task 1 [], score = 2/5, explanation = ''Unblocks other tasks''\<rparr>,
            \<lparr>orig = urgent_task 2 [1], score = 39/50,
               explanation = ''Due very soon; Very important; Quick win''\<rparr>,
            far_scored 3 [4], far_scored 4 [3]]
   \<and> detect_cycles (build_by_id task_id
        [far_task 3 [4], urgent_task 2 [1], mk_task 1 [], far_task 4 [3]]) = Inr {Key 3, Key 4}
   \<and> distinct (map (\<lambda>s. get_id (orig s))
        [\<lparr>orig = mk_task 1 [], score = 2/5, explanation = ''Unblocks other tasks''\<rparr>,
         \<lparr>orig = urgent_task 2 [1], score = 39/50,
            explanation = ''Due very soon; Very important; Quick win''\<rparr>,
         far_scored 3 [4], far_scored 4 [3]])"
  using score_tasks_ordering[OF mixed_batch_scored mixed_batch_cycles]
    mixed_batch_scored mixed_batch_cycles
  by blast

end
